theory Spec2Isabelle
  imports Main "HOL-Library.AList" "HOL-Library.Multiset" "HOL-Library.Word"
    "HOL-Library.List_Lexorder" "HOL-Library.Char_ord"
begin

section \<open>The sharetoken store of package ststore\<close>

text \<open>
  The store keeps sharetokens in a three-level Go map (\<open>st3map\<close>) and mirrors every
  change to files through a \<open>fsdir.T\<close>. The embedding is sequential: the
  \<open>sync.RWMutex\<close> of the Go struct serialises the methods, so each method is a
  function from the state before the call to the state after it and the returned error.
\<close>

subsection \<open>Go maps\<close>

text \<open>
  A Go map with string keys is an association list with at most one pair per key.
  \<open>map_of\<close> reads a key (\<open>None\<close> for the zero value \<open>nil\<close> of a missing
  key), \<open>AList.update\<close> assigns, \<open>AList.delete\<close> is the builtin \<open>delete\<close>, and
  \<open>length\<close> is \<open>len\<close>. The order of the pairs stands for one of the iteration
  orders \<open>range\<close> may choose.
\<close>

type_synonym 'v gomap = "(string \<times> 'v) list"
type_synonym 'tok st1map = "'tok gomap"
type_synonym 'tok st2map = "'tok st1map gomap"
type_synonym 'tok st3map = "'tok st2map gomap"

text \<open>
  Reading an entry whose value is itself a map: a missing key gives the nil map, which
  ranges over nothing, has length 0 and reads as nil at every key, like the empty map.
\<close>

definition rd :: "(string \<times> 'a list) list \<Rightarrow> string \<Rightarrow> 'a list" where
  "rd mp k = (case map_of mp k of None \<Rightarrow> [] | Some v \<Rightarrow> v)"

definition vals :: "'v gomap \<Rightarrow> 'v list" where
  "vals mp = map snd mp"

text \<open>The leaf \<open>t.sts[k1][k2][k3]\<close>; \<open>None\<close> is the nil pointer.\<close>

definition leaf :: "'tok st3map \<Rightarrow> string \<Rightarrow> string \<Rightarrow> string \<Rightarrow> 'tok option" where
  "leaf s k1 k2 k3 = map_of (rd (rd s k1) k2) k3"

subsection \<open>Errors, the file store and the store type\<close>

text \<open>
  \<open>DuplicateSTError\<close> is the package's own error value; \<open>FsError e\<close> is an error
  \<open>e\<close> handed back by the file store or by the directory walk; \<open>SliceBounds\<close> is
  the run-time panic of the slice expression \<open>ps[n-2:n]\<close> in \<open>New\<close>.
\<close>

datatype 'e error = DuplicateSTError | FsError 'e | SliceBounds

text \<open>
  Package \<open>fsdir\<close> and \<open>filepath.Walk\<close> are not part of the source at hand. They
  are parameters of the model: \<open>'fs\<close> is the state of the storage behind the
  \<open>fsdir.T\<close> handle, and each operation maps it to an optional error and the state
  afterwards. \<open>fs_Walk\<close> lists what \<open>filepath.Walk\<close> hands to its callback for
  every file and directory: the path, \<open>info.Name()\<close> and the error of visiting it.
\<close>

record ('fs, 'tok, 'e) fsys =
  fs_New :: "string \<Rightarrow> 'fs \<times> 'e option"
  fs_Path :: "'fs \<Rightarrow> string"
  fs_Get :: "string list \<Rightarrow> 'fs \<Rightarrow> 'e + 'tok"
  fs_Set :: "'tok \<Rightarrow> string list \<Rightarrow> 'fs \<Rightarrow> 'e option \<times> 'fs"
  fs_Del :: "string list \<Rightarrow> 'fs \<Rightarrow> 'e option \<times> 'fs"
  fs_Walk :: "string \<Rightarrow> 'fs \<Rightarrow> (string \<times> string \<times> 'e option) list"

text \<open>
  The struct \<open>T\<close>. A \<open>*sharetoken.T\<close> is a value of the type parameter \<open>'tok\<close>
  (never nil: \<open>keyf\<close> reads its fields); \<open>keyf\<close> is the \<open>KeyFunc\<close>.
\<close>

record ('fs, 'tok) T =
  m :: 'fs
  sts :: "'tok st3map"
  keyf :: "'tok \<Rightarrow> string \<times> string \<times> string"

subsection \<open>Add\<close>

text \<open>
  Lines 76 to 98. \<open>m2\<close> is \<open>t.sts[k1]\<close> after lines 78 to 80 (the map found there or
  the fresh \<open>st2map{}\<close>), \<open>m1\<close> is \<open>t.sts[k1][k2]\<close> after lines 82 to 84. An
  occupied leaf returns \<open>DuplicateSTError\<close> before anything is written to the file
  store; otherwise the token is stored and then written to \<open>k1/k3.json\<close>, and the
  error of that write is the result.
\<close>

definition Add ::
  "('fs, 'tok, 'e) fsys \<Rightarrow> ('fs, 'tok) T \<Rightarrow> 'tok \<Rightarrow> ('fs, 'tok) T \<times> 'e error option" where
  "Add fsd t st =
    (case keyf t st of (k1, k2, k3) \<Rightarrow>
      let m2 = rd (sts t) k1;
          m1 = rd m2 k2
      in (case map_of m1 k3 of
            Some old \<Rightarrow>
              (t\<lparr>sts := AList.update k1 (AList.update k2 m1 m2) (sts t)\<rparr>,
               Some DuplicateSTError)
          | None \<Rightarrow>
              let t1 = t\<lparr>sts := AList.update k1
                         (AList.update k2 (AList.update k3 st m1) m2) (sts t)\<rparr>;
                  (err, fs1) = fs_Set fsd st [k1, k3 @ ''.json''] (m t1)
              in (t1\<lparr>m := fs1\<rparr>, map_option FsError err)))"

subsection \<open>Del\<close>

text \<open>
  Lines 108 to 131. A nil level returns at once. Otherwise the leaf is deleted from
  \<open>t.sts[k1][k2]\<close>, the file \<open>k1/k3.json\<close> is deleted, and an error of that
  deletion returns before the two \<open>len\<close> tests. After them an empty
  \<open>t.sts[k1][k2]\<close> is deleted from \<open>t.sts[k1]\<close>, and an empty \<open>t.sts[k1]\<close> is
  deleted from \<open>t.sts\<close> together with the directory \<open>k1\<close>.
\<close>

definition Del ::
  "('fs, 'tok, 'e) fsys \<Rightarrow> ('fs, 'tok) T \<Rightarrow> 'tok \<Rightarrow> ('fs, 'tok) T \<times> 'e error option" where
  "Del fsd t st =
    (case keyf t st of (k1, k2, k3) \<Rightarrow>
      (case map_of (sts t) k1 of None \<Rightarrow> (t, None) | Some m2 \<Rightarrow>
      (case map_of m2 k2 of None \<Rightarrow> (t, None) | Some m1 \<Rightarrow>
      (case map_of m1 k3 of None \<Rightarrow> (t, None) | Some old \<Rightarrow>
        let m1' = AList.delete k3 m1;
            t1 = t\<lparr>sts := AList.update k1 (AList.update k2 m1' m2) (sts t)\<rparr>;
            (err, fs1) = fs_Del fsd [k1, k3 @ ''.json''] (m t1);
            t2 = t1\<lparr>m := fs1\<rparr>
        in (case err of
              Some e \<Rightarrow> (t2, Some (FsError e))
            | None \<Rightarrow>
                let m2' = (if length m1' = 0
                           then AList.delete k2 (AList.update k2 m1' m2)
                           else AList.update k2 m1' m2);
                    t3 = t2\<lparr>sts := AList.update k1 m2' (sts t2)\<rparr>
                in if length m2' = 0
                   then (let (err2, fs2) = fs_Del fsd [k1] (m t3)
                         in (t3\<lparr>sts := AList.delete k1 (sts t3), m := fs2\<rparr>,
                             map_option FsError err2))
                   else (t3, None))))))"

subsection \<open>Filter and SettlingAt\<close>

text \<open>
  Lines 141 to 170: the four cases of the \<open>switch\<close>, in its order. The result lists
  the tokens in the order of the association lists; Go leaves the order open.
\<close>

definition Filter :: "('fs, 'tok) T \<Rightarrow> string \<Rightarrow> string \<Rightarrow> 'tok list" where
  "Filter t k1 k2 =
    (if k1 = [] \<and> k2 = [] then
       concat (map (\<lambda>m1. concat (map vals (vals m1))) (vals (sts t)))
     else if k1 = [] then
       concat (map (\<lambda>m1. vals (rd m1 k2)) (vals (sts t)))
     else if k2 = [] then
       concat (map vals (vals (rd (sts t) k1)))
     else
       vals (rd (rd (sts t) k1) k2))"

text \<open>
  Lines 177 to 186. \<open>IsSettlingAt\<close> is a method of the token type and a parameter
  here; \<open>utime\<close> is an \<open>int64\<close>. \<open>r[rpk]++\<close> reads 0 at a missing key. The
  counter is a Go \<open>int\<close>; it counts elements of a slice, whose length is an
  \<open>int\<close> itself, so it cannot overflow and is an unbounded integer here.
\<close>

definition SettlingAt ::
  "('tok \<Rightarrow> 64 word \<Rightarrow> bool) \<Rightarrow> ('fs, 'tok) T \<Rightarrow> string \<Rightarrow> 64 word \<Rightarrow> int gomap" where
  "SettlingAt IsSettlingAt t rpk utime =
     foldl (\<lambda>r st. if IsSettlingAt st utime
                   then AList.update rpk ((case map_of r rpk of None \<Rightarrow> 0 | Some c \<Rightarrow> c) + 1) r
                   else r)
           [] (Filter t [] rpk)"

subsection \<open>New\<close>

text \<open>\<open>strings.HasSuffix\<close>, and \<open>strings.Split\<close> at a separator of one character.\<close>

definition HasSuffix :: "string \<Rightarrow> string \<Rightarrow> bool" where
  "HasSuffix s suf = (length suf \<le> length s \<and> drop (length s - length suf) s = suf)"

fun Split :: "string \<Rightarrow> char \<Rightarrow> string list" where
  "Split [] c = [[]]"
| "Split (x # xs) c =
     (if x = c then [] # Split xs c
      else (case Split xs c of [] \<Rightarrow> [[x]] | w # ws \<Rightarrow> (x # w) # ws))"

text \<open>
  The callback of lines 46 to 64 at one visited entry: an error of the walk is handed
  back; a name without the suffix \<open>.json\<close> is skipped; otherwise the last two
  segments of the path are read through \<open>Get\<close> and the token goes through \<open>Add\<close>.
  A path of fewer than two segments makes \<open>ps[n-2:n]\<close> panic.
\<close>

definition walkFn ::
  "('fs, 'tok, 'e) fsys \<Rightarrow> ('fs, 'tok) T \<Rightarrow> string \<times> string \<times> 'e option
     \<Rightarrow> ('fs, 'tok) T \<times> 'e error option" where
  "walkFn fsd t ent =
    (case ent of (path, name, werr) \<Rightarrow>
      (case werr of
         Some e \<Rightarrow> (t, Some (FsError e))
       | None \<Rightarrow>
           if \<not> HasSuffix name ''.json'' then (t, None)
           else let ps = Split path CHR ''/''; n = length ps
                in if n < 2 then (t, Some SliceBounds)
                   else (case fs_Get fsd (drop (n - 2) ps) (m t) of
                           Inl e \<Rightarrow> (t, Some (FsError e))
                         | Inr st \<Rightarrow> Add fsd t st)))"

text \<open>\<open>filepath.Walk\<close> stops at the first error its callback returns.\<close>

fun walk ::
  "('fs, 'tok, 'e) fsys \<Rightarrow> ('fs, 'tok) T \<Rightarrow> (string \<times> string \<times> 'e option) list
     \<Rightarrow> ('fs, 'tok) T \<times> 'e error option" where
  "walk fsd t [] = (t, None)"
| "walk fsd t (ent # ents) =
     (case walkFn fsd t ent of
        (t1, None) \<Rightarrow> walk fsd t1 ents
      | (t1, Some err) \<Rightarrow> (t1, Some err))"

text \<open>
  Lines 38 to 67. The result is the pair the Go function returns: the store built so
  far and the error. The entries of the walk are those of the directory as \<open>New\<close>
  finds it.
\<close>

definition New ::
  "('fs, 'tok, 'e) fsys \<Rightarrow> string \<Rightarrow> ('tok \<Rightarrow> string \<times> string \<times> string)
     \<Rightarrow> ('fs, 'tok) T \<times> 'e error option" where
  "New fsd dir kf =
    (case fs_New fsd dir of (fs0, err) \<Rightarrow>
      let t = \<lparr>m = fs0, sts = [], keyf = kf\<rparr>
      in (case err of
            Some e \<Rightarrow> (t, Some (FsError e))
          | None \<Rightarrow> walk fsd t (fs_Walk fsd (fs_Path fsd (m t)) (m t))))"

subsection \<open>Sequences of calls\<close>

datatype 'tok op = OpAdd 'tok | OpDel 'tok

definition step ::
  "('fs, 'tok, 'e) fsys \<Rightarrow> ('fs, 'tok) T \<Rightarrow> 'tok op \<Rightarrow> ('fs, 'tok) T \<times> 'e error option" where
  "step fsd t p = (case p of OpAdd st \<Rightarrow> Add fsd t st | OpDel st \<Rightarrow> Del fsd t st)"

text \<open>The state after a sequence of calls, and the error each call returned.\<close>

fun run ::
  "('fs, 'tok, 'e) fsys \<Rightarrow> ('fs, 'tok) T \<Rightarrow> 'tok op list
     \<Rightarrow> ('fs, 'tok) T \<times> 'e error option list" where
  "run fsd t [] = (t, [])"
| "run fsd t (p # ps) =
     (case step fsd t p of (t1, e) \<Rightarrow>
       (case run fsd t1 ps of (t2, es) \<Rightarrow> (t2, e # es)))"

text \<open>
  No call of the sequence meets a failing deletion of a token's file: whenever \<open>Del\<close>
  finds its leaf, the deletion of \<open>k1/k3.json\<close> in the state of that moment succeeds.
\<close>

fun file_dels_ok :: "('fs, 'tok, 'e) fsys \<Rightarrow> ('fs, 'tok) T \<Rightarrow> 'tok op list \<Rightarrow> bool" where
  "file_dels_ok fsd t [] = True"
| "file_dels_ok fsd t (OpAdd st # ps) = file_dels_ok fsd (fst (Add fsd t st)) ps"
| "file_dels_ok fsd t (OpDel st # ps) =
     ((case keyf t st of (k1, k2, k3) \<Rightarrow>
         leaf (sts t) k1 k2 k3 = None \<or> fst (fs_Del fsd [k1, k3 @ ''.json''] (m t)) = None)
      \<and> file_dels_ok fsd (fst (Del fsd t st)) ps)"

subsection \<open>Properties of the index\<close>

text \<open>The index as the list of its leaves, each with its three keys.\<close>

definition entries :: "'tok st3map \<Rightarrow> (string \<times> string \<times> string \<times> 'tok) list" where
  "entries s =
     concat (map (\<lambda>(k1, m2).
       concat (map (\<lambda>(k2, m1). map (\<lambda>(k3, st). (k1, k2, k3, st)) m1) m2)) s)"

text \<open>A Go map holds a key once, at every level.\<close>

definition wf_index :: "'tok st3map \<Rightarrow> bool" where
  "wf_index s =
     (distinct (map fst s) \<and>
      (\<forall>(k1, m2) \<in> set s. distinct (map fst m2) \<and>
         (\<forall>(k2, m1) \<in> set m2. distinct (map fst m1))))"

text \<open>Every token sits at the keys its \<open>KeyFunc\<close> gives.\<close>

definition keyed :: "('tok \<Rightarrow> string \<times> string \<times> string) \<Rightarrow> 'tok st3map \<Rightarrow> bool" where
  "keyed kf s = (\<forall>(k1, k2, k3, st) \<in> set (entries s). kf st = (k1, k2, k3))"

text \<open>No empty inner map: neither a \<open>k1\<close> with no \<open>k2\<close> nor a \<open>k2\<close> with no \<open>k3\<close>.\<close>

definition no_empty :: "'tok st3map \<Rightarrow> bool" where
  "no_empty s = (\<forall>(k1, m2) \<in> set s. m2 \<noteq> [] \<and> (\<forall>(k2, m1) \<in> set m2. m1 \<noteq> []))"

text \<open>
  The reading of \<open>Filter\<close> in the specification: the empty string matches every key
  of its level, another string matches itself only.
\<close>

definition matches :: "string \<Rightarrow> string \<Rightarrow> string \<times> string \<times> string \<times> 'tok \<Rightarrow> bool" where
  "matches a b ent = (case ent of (k1, k2, k3, st) \<Rightarrow> (a = [] \<or> k1 = a) \<and> (b = [] \<or> k2 = b))"

definition token_of :: "string \<times> string \<times> string \<times> 'tok \<Rightarrow> 'tok" where
  "token_of ent = (case ent of (k1, k2, k3, st) \<Rightarrow> st)"

subsection \<open>A model of the file store\<close>

text \<open>
  Modelled from the spec: the content of a persisted file. The spec's RecordStore holds
  one serialized record per file, and a record may fail to deserialize; the token type
  and its serialization are not in the source.
\<close>

datatype 'tok content = Record 'tok | Garbage

datatype ioerr = NotExist | Undecodable | Denied | BadPath

text \<open>
  Modelled from the spec: the state behind a \<open>fsdir.T\<close>, the package the source imports
  and does not contain. The persisted layout is a root directory with one subdirectory
  per \<open>k1\<close> and in it one file per token. \<open>d_faulty\<close> lists the paths at which a
  write or a deletion is refused, as a test double of the RecordStore does.
\<close>

record 'tok disk =
  d_root :: string
  d_dirs :: "(string \<times> (string \<times> 'tok content) list) list"
  d_faulty :: "string list list"

text \<open>
  Modelled from the spec: \<open>fsdir.T.Set\<close>, the write of one record at the path
  \<open>(k1, file)\<close>, creating the subdirectory when it is missing.
\<close>

definition disk_Set :: "'tok \<Rightarrow> string list \<Rightarrow> 'tok disk \<Rightarrow> ioerr option \<times> 'tok disk" where
  "disk_Set st ps d =
    (if ps \<in> set (d_faulty d) then (Some Denied, d)
     else (case ps of
             [k1, f] \<Rightarrow>
               (None, d\<lparr>d_dirs := AList.update k1
                          (AList.update f (Record st) (rd (d_dirs d) k1)) (d_dirs d)\<rparr>)
           | _ \<Rightarrow> (Some BadPath, d)))"

text \<open>
  Modelled from the spec: \<open>fsdir.T.Get\<close>, the read of one record at the path
  \<open>(k1, file)\<close>; it fails on a missing file and on one that does not deserialize.
\<close>

definition disk_Get :: "string list \<Rightarrow> 'tok disk \<Rightarrow> ioerr + 'tok" where
  "disk_Get ps d =
    (case ps of
       [k1, f] \<Rightarrow>
         (case map_of (rd (d_dirs d) k1) f of
            None \<Rightarrow> Inl NotExist
          | Some Garbage \<Rightarrow> Inl Undecodable
          | Some (Record st) \<Rightarrow> Inr st)
     | _ \<Rightarrow> Inl BadPath)"

text \<open>
  Modelled from the spec: \<open>fsdir.T.Del\<close>, the deletion of one file at the path
  \<open>(k1, file)\<close> or of the whole group at the path \<open>(k1)\<close>.
\<close>

definition disk_Del :: "string list \<Rightarrow> 'tok disk \<Rightarrow> ioerr option \<times> 'tok disk" where
  "disk_Del ps d =
    (if ps \<in> set (d_faulty d) then (Some Denied, d)
     else (case ps of
             [k1, f] \<Rightarrow>
               (None, d\<lparr>d_dirs := (case map_of (d_dirs d) k1 of
                                      None \<Rightarrow> d_dirs d
                                    | Some fl \<Rightarrow> AList.update k1 (AList.delete f fl) (d_dirs d))\<rparr>)
           | [k1] \<Rightarrow> (None, d\<lparr>d_dirs := AList.delete k1 (d_dirs d)\<rparr>)
           | _ \<Rightarrow> (Some BadPath, d)))"

text \<open>
  Modelled from the spec: the path of an entry below a directory, as \<open>filepath.Join\<close>
  builds it from names without separators: an empty element is left out.
\<close>

definition join :: "string \<Rightarrow> string \<Rightarrow> string" where
  "join a b = (if b = [] then a else if a = [] then b else a @ ''/'' @ b)"

text \<open>
  Modelled from the spec: what \<open>filepath.Walk\<close> visits from the root: the root
  itself, then every subdirectory and in it every file, in the order of their names.
  Nothing in this model makes visiting an entry fail.
\<close>

definition disk_Walk :: "string \<Rightarrow> 'tok disk \<Rightarrow> (string \<times> string \<times> ioerr option) list" where
  "disk_Walk p d =
     (p, last (Split p CHR ''/''), None) #
     concat (map (\<lambda>(k1, fl).
         (join p k1, k1, None) #
         map (\<lambda>(f, c). (join (join p k1) f, f, None)) (sort_key fst fl))
       (sort_key fst (d_dirs d)))"

text \<open>
  Modelled from the spec: the file store of a machine whose store directory holds
  \<open>d0\<close>; \<open>fsdir.New\<close> opens it under the path it is given.
\<close>

definition disk_fsys :: "'tok disk \<Rightarrow> ('tok disk, 'tok, ioerr) fsys" where
  "disk_fsys d0 =
     \<lparr>fs_New = (\<lambda>dir. (d0\<lparr>d_root := dir\<rparr>, None)),
      fs_Path = d_root,
      fs_Get = disk_Get,
      fs_Set = disk_Set,
      fs_Del = disk_Del,
      fs_Walk = disk_Walk\<rparr>"

subsection \<open>Auxiliary notions and example stores\<close>

text \<open>
  The map \<open>t.sts[k1]\<close> after lines 115 to 124 of \<open>Del\<close>, when the file deletion has
  succeeded: the leaf \<open>k3\<close> is gone and an emptied \<open>k2\<close> is removed.
\<close>

definition pruned2 :: "'tok st3map \<Rightarrow> string \<Rightarrow> string \<Rightarrow> string \<Rightarrow> 'tok st2map" where
  "pruned2 s k1 k2 k3 =
     (if AList.delete k3 (rd (rd s k1) k2) = [] then AList.delete k2 (rd s k1)
      else AList.update k2 (AList.delete k3 (rd (rd s k1) k2)) (rd s k1))"

text \<open>
  Tokens for the examples: a token is its own key triple, and the \<open>KeyFunc\<close> reads
  it off.
\<close>

type_synonym xtoken = "string \<times> string \<times> string"

definition xkeyf :: "xtoken \<Rightarrow> string \<times> string \<times> string" where
  "xkeyf st = st"

text \<open>An empty store directory, and one that refuses every change to \<open>a/c.json\<close>.\<close>

definition xdisk :: "xtoken disk" where
  "xdisk = \<lparr>d_root = ''/st'', d_dirs = [], d_faulty = []\<rparr>"

definition xdisk_bad :: "xtoken disk" where
  "xdisk_bad = \<lparr>d_root = ''/st'', d_dirs = [], d_faulty = [[''a'', ''c.json'']]\<rparr>"

definition xstore :: "xtoken disk \<Rightarrow> (xtoken disk, xtoken) T" where
  "xstore d = \<lparr>m = d, sts = [], keyf = xkeyf\<rparr>"

text \<open>The leaves below one \<open>k2\<close>, and below one \<open>k1\<close>, with their keys.\<close>

definition entries1 :: "string \<Rightarrow> string \<Rightarrow> 'tok st1map \<Rightarrow> (string \<times> string \<times> string \<times> 'tok) list" where
  "entries1 k1 k2 m1 = map (\<lambda>(k3, st). (k1, k2, k3, st)) m1"

definition entries2 :: "string \<Rightarrow> 'tok st2map \<Rightarrow> (string \<times> string \<times> string \<times> 'tok) list" where
  "entries2 k1 m2 = concat (map (\<lambda>(k2, m1). entries1 k1 k2 m1) m2)"

text \<open>The example store after \<open>Add\<close> of the token \<open>(a, x, c)\<close>.\<close>

definition xstore1 :: "xtoken disk \<Rightarrow> (xtoken disk, xtoken) T" where
  "xstore1 d = fst (Add (disk_fsys d) (xstore d) (''a'', ''x'', ''c''))"

text \<open>The example store after three more tokens, one of them with an empty \<open>k2\<close>.\<close>

definition xstore4 :: "(xtoken disk, xtoken) T" where
  "xstore4 = fst (run (disk_fsys xdisk) (xstore1 xdisk)
     [OpAdd (''a'', ''y'', ''d''), OpAdd (''b'', ''x'', ''e''), OpAdd (''a'', [], ''f'')])"

subsection \<open>Notions for rebuilding the index from the directory\<close>

text \<open>
  The files of the store directory in the order of the walk, each with its directory,
  its name and its content.
\<close>

definition dfiles :: "'tok disk \<Rightarrow> (string \<times> string \<times> 'tok content) list" where
  "dfiles d = concat (map (\<lambda>(k1, fl). map (\<lambda>(f, c). (k1, f, c)) (sort_key fst fl))
                       (sort_key fst (d_dirs d)))"

text \<open>What the walk from \<open>p\<close> hands to the callback for a file.\<close>

definition fent :: "string \<Rightarrow> string \<times> string \<times> 'tok content \<Rightarrow> string \<times> string \<times> ioerr option" where
  "fent p x = (case x of (k1, f, c) \<Rightarrow> (join (join p k1) f, f, None))"

text \<open>The entries the callback of \<open>New\<close> does not skip.\<close>

definition visited :: "string \<times> string \<times> 'e option \<Rightarrow> bool" where
  "visited ent = (case ent of (path, name, werr) \<Rightarrow> werr \<noteq> None \<or> HasSuffix name ''.json'')"

text \<open>
  A \<open>k1\<close> that names a subdirectory of the store directory and nothing else: not empty,
  without a separator, not \<open>.\<close> or \<open>..\<close>, and not ending in \<open>.json\<close> (the callback
  of \<open>New\<close> would take such a directory for a record).
\<close>

definition plain_dir :: "string \<Rightarrow> bool" where
  "plain_dir k = (k \<noteq> [] \<and> CHR ''/'' \<notin> set k \<and> k \<noteq> ''.'' \<and> k \<noteq> ''..'' \<and> \<not> HasSuffix k ''.json'')"

text \<open>
  A directory as \<open>Add\<close> leaves it under the \<open>KeyFunc\<close> \<open>kf\<close>: nothing is refused,
  every name occurs once, and every file \<open>k1/f\<close> holds a token whose \<open>k1\<close> is the
  directory and whose \<open>k3\<close>, free of separators, with \<open>.json\<close> is \<open>f\<close>.
\<close>

definition disk_ok :: "('tok \<Rightarrow> string \<times> string \<times> string) \<Rightarrow> 'tok disk \<Rightarrow> bool" where
  "disk_ok kf d =
     (d_faulty d = [] \<and> distinct (map fst (d_dirs d)) \<and>
      (\<forall>(k1, fl) \<in> set (d_dirs d). plain_dir k1 \<and> distinct (map fst fl) \<and>
         (\<forall>(f, c) \<in> set fl.
            (case c of Garbage \<Rightarrow> False
             | Record x \<Rightarrow> (case kf x of (a, b, c3) \<Rightarrow>
                 a = k1 \<and> c3 @ ''.json'' = f \<and> CHR ''/'' \<notin> set c3)))))"

text \<open>The index and the directory hold the same tokens, each at its keys.\<close>

definition in_sync :: "('tok \<Rightarrow> string \<times> string \<times> string) \<Rightarrow> ('tok disk, 'tok) T \<Rightarrow> bool" where
  "in_sync kf t =
     (disk_ok kf (m t) \<and> keyf t = kf \<and> wf_index (sts t) \<and>
      (\<forall>a b c y. leaf (sts t) a b c = Some y \<longleftrightarrow>
         map_of (rd (d_dirs (m t)) a) (c @ ''.json'') = Some (Record y) \<and> kf y = (a, b, c)))"

text \<open>A token whose \<open>k1\<close> names a subdirectory and whose \<open>k3\<close> has no separator.\<close>

definition storable :: "('tok \<Rightarrow> string \<times> string \<times> string) \<Rightarrow> 'tok \<Rightarrow> bool" where
  "storable kf x = (case kf x of (k1, k2, k3) \<Rightarrow> plain_dir k1 \<and> CHR ''/'' \<notin> set k3)"

text \<open>The two keys that make the path of a token's file; \<open>k2\<close> is not part of it.\<close>

definition disk_key :: "('tok \<Rightarrow> string \<times> string \<times> string) \<Rightarrow> 'tok \<Rightarrow> string \<times> string" where
  "disk_key kf x = (case kf x of (k1, k2, k3) \<Rightarrow> (k1, k3))"

text \<open>
  The scenario of the bootstrap: a store is made by \<open>New\<close> on an empty directory that
  refuses nothing, the tokens are added one after the other, and \<open>New\<close> is called again
  on the directory as these calls left it.
\<close>

definition empty_dir :: "string \<Rightarrow> 'tok disk" where
  "empty_dir dir = \<lparr>d_root = dir, d_dirs = [], d_faulty = []\<rparr>"

definition populate ::
  "('tok \<Rightarrow> string \<times> string \<times> string) \<Rightarrow> string \<Rightarrow> 'tok list
     \<Rightarrow> ('tok disk, 'tok) T \<times> ioerr error option list" where
  "populate kf dir toks =
     run (disk_fsys (empty_dir dir)) (fst (New (disk_fsys (empty_dir dir)) dir kf)) (map OpAdd toks)"

definition reopen ::
  "('tok \<Rightarrow> string \<times> string \<times> string) \<Rightarrow> string \<Rightarrow> 'tok list
     \<Rightarrow> ('tok disk, 'tok) T \<times> ioerr error option" where
  "reopen kf dir toks = New (disk_fsys (m (fst (populate kf dir toks)))) dir kf"

text \<open>
  A store directory whose second file does not deserialize, one whose second file holds
  the token of the first, and the store either gives once the first file is loaded.
\<close>

definition xpartial :: "xtoken disk" where
  "xpartial = \<lparr>d_root = ''/st'',
                d_dirs = [(''a'', [(''b.json'', Record (''a'', ''x'', ''b'')), (''c.json'', Garbage)])],
                d_faulty = []\<rparr>"

definition xdouble :: "xtoken disk" where
  "xdouble = \<lparr>d_root = ''/st'',
               d_dirs = [(''a'', [(''b.json'', Record (''a'', ''x'', ''b'')),
                                  (''c.json'', Record (''a'', ''x'', ''b''))])],
               d_faulty = []\<rparr>"

definition xloaded :: "xtoken disk \<Rightarrow> (xtoken disk, xtoken) T" where
  "xloaded d = \<lparr>m = d, sts = [(''a'', [(''x'', [(''b'', (''a'', ''x'', ''b''))])])], keyf = xkeyf\<rparr>"

text \<open>The example store after two tokens that differ in \<open>k2\<close> only.\<close>

definition xstore2 :: "(xtoken disk, xtoken) T" where
  "xstore2 = fst (run (disk_fsys xdisk) (xstore xdisk)
      [OpAdd (''a'', ''x'', ''c''), OpAdd (''a'', ''y'', ''c'')])"

section \<open>Association lists and the leaves of the index\<close>

lemma rd_update: "rd (AList.update k v xs) k' = (if k' = k then v else rd xs k')"
  by (simp add: rd_def update_conv')

lemma map_of_update: "map_of (AList.update k v xs) k' = (if k' = k then Some v else map_of xs k')"
  by (simp add: update_conv')

lemma rd_delete: "rd (AList.delete k xs) k' = (if k' = k then [] else rd xs k')"
  by (simp add: rd_def delete_conv')

lemma map_of_delete_if:
  "map_of (AList.delete k xs) k' = (if k' = k then None else map_of xs k')"
  by (simp add: delete_conv')

lemma rd_nonempty: "rd mp k \<noteq> [] \<Longrightarrow> map_of mp k = Some (rd mp k)"
  by (auto simp: rd_def split: option.splits)

lemma leaf_SomeD:
  assumes "leaf s k1 k2 k3 = Some x"
  shows "map_of s k1 = Some (rd s k1)" and "map_of (rd s k1) k2 = Some (rd (rd s k1) k2)"
    and "map_of (rd (rd s k1) k2) k3 = Some x"
proof -
  show 3: "map_of (rd (rd s k1) k2) k3 = Some x" using assms by (simp add: leaf_def)
  then have "rd (rd s k1) k2 \<noteq> []" by auto
  then show 2: "map_of (rd s k1) k2 = Some (rd (rd s k1) k2)" by (rule rd_nonempty)
  then have "rd s k1 \<noteq> []" by auto
  then show "map_of s k1 = Some (rd s k1)" by (rule rd_nonempty)
qed

lemma in_vals: "map_of mp k = Some v \<Longrightarrow> v \<in> set (vals mp)"
  by (force simp: vals_def dest: map_of_SomeD)

lemma leaf_in_Filter:
  assumes "leaf (sts t) k1 k2 k3 = Some st"
  shows "st \<in> set (Filter t k1 k2)"
proof -
  note d = leaf_SomeD [OF assms]
  have "st \<in> set (vals (rd (rd (sts t) k1) k2))" using d(3) by (rule in_vals)
  moreover have "rd (rd (sts t) k1) k2 \<in> set (vals (rd (sts t) k1))" using d(2) by (rule in_vals)
  moreover have "rd (sts t) k1 \<in> set (vals (sts t))" using d(1) by (rule in_vals)
  ultimately show ?thesis by (auto simp: Filter_def)
qed

lemma leaf_update3:
  "leaf (AList.update k1 (AList.update k2 (AList.update k3 v (rd (rd s k1) k2)) (rd s k1)) s) a b c =
     (if (a, b, c) = (k1, k2, k3) then Some v else leaf s a b c)"
  by (simp add: leaf_def rd_update map_of_update)

section \<open>The two ways through Add\<close>

lemma Add_fresh:
  assumes "keyf t st = (k1, k2, k3)" and "leaf (sts t) k1 k2 k3 = None"
  shows "Add fsd t st =
     (t\<lparr>sts := AList.update k1 (AList.update k2 (AList.update k3 st (rd (rd (sts t) k1) k2))
                 (rd (sts t) k1)) (sts t),
        m := snd (fs_Set fsd st [k1, k3 @ ''.json''] (m t))\<rparr>,
      map_option FsError (fst (fs_Set fsd st [k1, k3 @ ''.json''] (m t))))"
  using assms by (simp add: Add_def leaf_def Let_def split: prod.splits)

lemma Add_dup:
  assumes "keyf t st = (k1, k2, k3)" and "leaf (sts t) k1 k2 k3 = Some old"
  shows "Add fsd t st = (t, Some DuplicateSTError)"
proof -
  note d = leaf_SomeD [OF assms(2)]
  have "AList.update k1 (AList.update k2 (rd (rd (sts t) k1) k2) (rd (sts t) k1)) (sts t) = sts t"
    using d(1,2) by (simp add: update_triv)
  then show ?thesis using assms(1) d(3) by (simp add: Add_def Let_def)
qed

text \<open>
  C1. When the leaf of the token's triple is free and the write of \<open>k1/k3.json\<close>
  fails with \<open>e\<close>, \<open>Add\<close> returns \<open>e\<close> and the token stays in the index: the leaf
  holds it and \<open>Filter k1 k2\<close> lists it.
\<close>

theorem Add_write_error_keeps_token:
  assumes "keyf t st = (k1, k2, k3)" and "leaf (sts t) k1 k2 k3 = None"
    and "fst (fs_Set fsd st [k1, k3 @ ''.json''] (m t)) = Some e"
  shows "snd (Add fsd t st) = Some (FsError e) \<and>
         leaf (sts (fst (Add fsd t st))) k1 k2 k3 = Some st \<and>
         st \<in> set (Filter (fst (Add fsd t st)) k1 k2)"
proof -
  have "leaf (sts (fst (Add fsd t st))) k1 k2 k3 = Some st"
    by (simp add: Add_fresh [OF assms(1,2)] leaf_update3)
  moreover have "snd (Add fsd t st) = Some (FsError e)"
    by (simp add: Add_fresh [OF assms(1,2)] assms(3))
  ultimately show ?thesis by (simp add: leaf_in_Filter)
qed

theorem Add_write_error_keeps_token_witness:
  "keyf (xstore xdisk_bad) (''a'', ''x'', ''c'') = (''a'', ''x'', ''c'') \<and>
   leaf (sts (xstore xdisk_bad)) ''a'' ''x'' ''c'' = None \<and>
   fst (fs_Set (disk_fsys xdisk_bad) (''a'', ''x'', ''c'') [''a'', ''c'' @ ''.json'']
          (m (xstore xdisk_bad))) = Some Denied \<and>
   snd (Add (disk_fsys xdisk_bad) (xstore xdisk_bad) (''a'', ''x'', ''c'')) = Some (FsError Denied) \<and>
   (''a'', ''x'', ''c'') \<in>
     set (Filter (fst (Add (disk_fsys xdisk_bad) (xstore xdisk_bad) (''a'', ''x'', ''c''))) ''a'' ''x'')"
proof -
  have 1: "keyf (xstore xdisk_bad) (''a'', ''x'', ''c'') = (''a'', ''x'', ''c'')"
    by (simp add: xstore_def xkeyf_def)
  have 2: "leaf (sts (xstore xdisk_bad)) ''a'' ''x'' ''c'' = None"
    by (simp add: xstore_def leaf_def rd_def)
  have 3: "fst (fs_Set (disk_fsys xdisk_bad) (''a'', ''x'', ''c'') [''a'', ''c'' @ ''.json'']
          (m (xstore xdisk_bad))) = Some Denied"
    by (simp add: xstore_def disk_fsys_def disk_Set_def xdisk_bad_def)
  show ?thesis using Add_write_error_keeps_token [OF 1 2 3] 1 2 3 by simp
qed

text \<open>
  C2. When the leaf of the token's triple holds a token, \<open>Add\<close> returns
  \<open>DuplicateSTError\<close> and the store after the call is the store before it: the same
  index, the same file store (nothing was written), and the leaf holds the token it held.
\<close>

theorem Add_duplicate_no_change:
  assumes "keyf t st = (k1, k2, k3)" and "leaf (sts t) k1 k2 k3 = Some old"
  shows "Add fsd t st = (t, Some DuplicateSTError) \<and>
         leaf (sts (fst (Add fsd t st))) k1 k2 k3 = Some old"
  using assms by (simp add: Add_dup [OF assms])

theorem Add_duplicate_no_change_witness:
  "keyf (fst (Add (disk_fsys xdisk) (xstore xdisk) (''a'', ''x'', ''c''))) (''a'', ''x'', ''c'')
     = (''a'', ''x'', ''c'') \<and>
   leaf (sts (fst (Add (disk_fsys xdisk) (xstore xdisk) (''a'', ''x'', ''c'')))) ''a'' ''x'' ''c''
     = Some (''a'', ''x'', ''c'') \<and>
   Add (disk_fsys xdisk) (fst (Add (disk_fsys xdisk) (xstore xdisk) (''a'', ''x'', ''c'')))
       (''a'', ''x'', ''c'')
     = (fst (Add (disk_fsys xdisk) (xstore xdisk) (''a'', ''x'', ''c'')), Some DuplicateSTError)"
proof -
  let ?t = "fst (Add (disk_fsys xdisk) (xstore xdisk) (''a'', ''x'', ''c''))"
  have 1: "keyf ?t (''a'', ''x'', ''c'') = (''a'', ''x'', ''c'')"
    by (simp add: Add_def xstore_def xkeyf_def rd_def Let_def split: prod.splits)
  have 2: "leaf (sts ?t) ''a'' ''x'' ''c'' = Some (''a'', ''x'', ''c'')"
    by (simp add: Add_def xstore_def xkeyf_def rd_def leaf_def Let_def split: prod.splits)
  show ?thesis using Add_duplicate_no_change [OF 1 2, of "disk_fsys xdisk"] 1 2 by simp
qed

section \<open>The ways through Del\<close>

lemma Del_absent:
  assumes "keyf t st = (k1, k2, k3)" and "leaf (sts t) k1 k2 k3 = None"
  shows "Del fsd t st = (t, None)"
  using assms by (auto simp: Del_def leaf_def rd_def split: option.splits)

lemma Del_file_error:
  assumes "keyf t st = (k1, k2, k3)" and "leaf (sts t) k1 k2 k3 = Some old"
    and "fs_Del fsd [k1, k3 @ ''.json''] (m t) = (Some e, fs1)"
  shows "Del fsd t st =
     (t\<lparr>sts := AList.update k1 (AList.update k2 (AList.delete k3 (rd (rd (sts t) k1) k2))
                 (rd (sts t) k1)) (sts t),
        m := fs1\<rparr>, Some (FsError e))"
  using leaf_SomeD [OF assms(2)] assms(1,3) by (simp add: Del_def Let_def)

lemma Del_file_ok:
  assumes "keyf t st = (k1, k2, k3)" and "leaf (sts t) k1 k2 k3 = Some old"
    and "fs_Del fsd [k1, k3 @ ''.json''] (m t) = (None, fs1)"
  shows "Del fsd t st =
     (if pruned2 (sts t) k1 k2 k3 = []
      then (t\<lparr>sts := AList.delete k1 (sts t), m := snd (fs_Del fsd [k1] fs1)\<rparr>,
            map_option FsError (fst (fs_Del fsd [k1] fs1)))
      else (t\<lparr>sts := AList.update k1 (pruned2 (sts t) k1 k2 k3) (sts t), m := fs1\<rparr>, None))"
  using leaf_SomeD [OF assms(2)] assms(1,3)
  by (simp add: Del_def Let_def pruned2_def AList.delete_update_same split: prod.splits)

lemma keyf_Add: "keyf (fst (Add fsd t st)) = keyf t"
  by (simp add: Add_def Let_def split: prod.splits option.splits)

lemma keyf_Del: "keyf (fst (Del fsd t st)) = keyf t"
  by (simp add: Del_def Let_def split: prod.splits option.splits)

lemma delete_Nil_map_of: "AList.delete k xs = [] \<Longrightarrow> k' \<noteq> k \<Longrightarrow> map_of xs k' = None"
  using map_of_delete_if [of k xs k'] by simp

lemma leaf_pruned:
  "leaf (AList.update k1 (pruned2 s k1 k2 k3) s) a b c =
     (if (a, b, c) = (k1, k2, k3) then None else leaf s a b c)"
  by (auto simp add: leaf_def pruned2_def rd_update rd_delete map_of_delete_if delete_Nil_map_of)

lemma leaf_delete1:
  "pruned2 s k1 k2 k3 = [] \<Longrightarrow>
   leaf (AList.delete k1 s) a b c = (if (a, b, c) = (k1, k2, k3) then None else leaf s a b c)"
proof -
  assume p: "pruned2 s k1 k2 k3 = []"
  have "leaf (AList.update k1 [] s) a b c = leaf (AList.delete k1 s) a b c"
    by (simp add: leaf_def rd_update rd_delete)
  then show ?thesis using leaf_pruned [of k1 s k2 k3 a b c] p by simp
qed

lemma leaf_unlink:
  "leaf (AList.update k1 (AList.update k2 (AList.delete k3 (rd (rd s k1) k2)) (rd s k1)) s) a b c =
     (if (a, b, c) = (k1, k2, k3) then None else leaf s a b c)"
  by (simp add: leaf_def rd_update map_of_delete_if)

text \<open>Whatever way \<open>Del\<close> takes, it empties the leaf of its token and no other.\<close>

lemma leaf_Del:
  assumes "keyf t st = (k1, k2, k3)"
  shows "leaf (sts (fst (Del fsd t st))) a b c =
           (if (a, b, c) = (k1, k2, k3) then None else leaf (sts t) a b c)"
proof (cases "leaf (sts t) k1 k2 k3")
  case None
  then show ?thesis using assms by (auto simp: Del_absent)
next
  case (Some old)
  obtain err fs1 where fd: "fs_Del fsd [k1, k3 @ ''.json''] (m t) = (err, fs1)" by force
  show ?thesis
  proof (cases err)
    case None
    show ?thesis
      by (simp add: Del_file_ok [OF assms Some fd [unfolded None]] leaf_pruned leaf_delete1)
  next
    case (Some e)
    show ?thesis
      by (simp add: Del_file_error [OF assms \<open>leaf (sts t) k1 k2 k3 = Some old\<close> fd [unfolded Some]]
          leaf_unlink)
  qed
qed

text \<open>The example stores, computed.\<close>

lemma xstore1_bad:
  "xstore1 xdisk_bad =
     \<lparr>m = xdisk_bad, sts = [(''a'', [(''x'', [(''c'', (''a'', ''x'', ''c''))])])], keyf = xkeyf\<rparr>"
  by (simp add: xstore1_def xstore_def Add_def xkeyf_def rd_def Let_def disk_fsys_def
      disk_Set_def xdisk_bad_def)

lemma xstore1_good:
  "xstore1 xdisk =
     \<lparr>m = \<lparr>d_root = ''/st'', d_dirs = [(''a'', [(''c.json'', Record (''a'', ''x'', ''c''))])],
            d_faulty = []\<rparr>,
      sts = [(''a'', [(''x'', [(''c'', (''a'', ''x'', ''c''))])])], keyf = xkeyf\<rparr>"
  by (simp add: xstore1_def xstore_def Add_def xkeyf_def rd_def Let_def disk_fsys_def
      disk_Set_def xdisk_def)

text \<open>
  C4. When \<open>Del\<close> finds its leaf and the deletion of \<open>k1/k3.json\<close> fails with
  \<open>e\<close>, it returns \<open>e\<close>; the file store is as that failed deletion left it (the group
  \<open>k1\<close> is not deleted); the leaf is gone from the index, and both \<open>k1\<close> and \<open>k2\<close>
  under it remain, the latter holding what is left of its leaves, possibly nothing.
\<close>

theorem Del_file_error_no_pruning:
  assumes "keyf t st = (k1, k2, k3)" and "leaf (sts t) k1 k2 k3 = Some old"
    and "fs_Del fsd [k1, k3 @ ''.json''] (m t) = (Some e, fs1)"
  shows "snd (Del fsd t st) = Some (FsError e) \<and>
         m (fst (Del fsd t st)) = fs1 \<and>
         leaf (sts (fst (Del fsd t st))) k1 k2 k3 = None \<and>
         map_of (sts (fst (Del fsd t st))) k1 \<noteq> None \<and>
         map_of (rd (sts (fst (Del fsd t st))) k1) k2 =
           Some (AList.delete k3 (rd (rd (sts t) k1) k2))"
  by (simp add: Del_file_error [OF assms] leaf_def rd_update map_of_update map_of_delete_if)

theorem Del_file_error_no_pruning_witness:
  "keyf (xstore1 xdisk_bad) (''a'', ''x'', ''c'') = (''a'', ''x'', ''c'') \<and>
   leaf (sts (xstore1 xdisk_bad)) ''a'' ''x'' ''c'' = Some (''a'', ''x'', ''c'') \<and>
   fs_Del (disk_fsys xdisk_bad) [''a'', ''c'' @ ''.json''] (m (xstore1 xdisk_bad))
     = (Some Denied, xdisk_bad) \<and>
   snd (Del (disk_fsys xdisk_bad) (xstore1 xdisk_bad) (''a'', ''x'', ''c'')) = Some (FsError Denied) \<and>
   map_of (rd (sts (fst (Del (disk_fsys xdisk_bad) (xstore1 xdisk_bad) (''a'', ''x'', ''c'')))) ''a'')
     ''x'' = Some []"
proof -
  have 1: "keyf (xstore1 xdisk_bad) (''a'', ''x'', ''c'') = (''a'', ''x'', ''c'')"
    by (simp add: xstore1_bad xkeyf_def)
  have 2: "leaf (sts (xstore1 xdisk_bad)) ''a'' ''x'' ''c'' = Some (''a'', ''x'', ''c'')"
    by (simp add: xstore1_bad leaf_def rd_def)
  have 3: "fs_Del (disk_fsys xdisk_bad) [''a'', ''c'' @ ''.json''] (m (xstore1 xdisk_bad))
     = (Some Denied, xdisk_bad)"
    unfolding xstore1_bad by (simp add: disk_fsys_def disk_Del_def xdisk_bad_def)
  have 4: "AList.delete ''c'' (rd (rd (sts (xstore1 xdisk_bad)) ''a'') ''x'') = []"
    by (simp add: xstore1_bad rd_def)
  show ?thesis using Del_file_error_no_pruning [OF 1 2 3] 1 2 3 4 by simp
qed

text \<open>
  C5. When \<open>Del\<close> finds its leaf and the deletion of \<open>k1/k3.json\<close> succeeds, the
  leaf is gone; if no leaf is left under \<open>(k1, k2)\<close>, the entry \<open>k2\<close> is removed from
  the map of \<open>k1\<close>; if then no \<open>k2\<close> is left under \<open>k1\<close>, the entry \<open>k1\<close> is removed
  from the index and the group \<open>k1\<close> is deleted in the file store, the error of that
  deletion being the result. In every other case the entry \<open>k1\<close> stays, the file store
  is as the file deletion left it and the result is success; a \<open>k2\<close> that still has
  leaves keeps them.
\<close>

theorem Del_success_prunes:
  assumes "keyf t st = (k1, k2, k3)" and "leaf (sts t) k1 k2 k3 = Some old"
    and "fs_Del fsd [k1, k3 @ ''.json''] (m t) = (None, fs1)"
  shows "leaf (sts (fst (Del fsd t st))) k1 k2 k3 = None \<and>
    (AList.delete k3 (rd (rd (sts t) k1) k2) = [] \<longrightarrow>
       map_of (rd (sts (fst (Del fsd t st))) k1) k2 = None) \<and>
    (AList.delete k3 (rd (rd (sts t) k1) k2) = [] \<and> AList.delete k2 (rd (sts t) k1) = [] \<longrightarrow>
       map_of (sts (fst (Del fsd t st))) k1 = None \<and>
       m (fst (Del fsd t st)) = snd (fs_Del fsd [k1] fs1) \<and>
       snd (Del fsd t st) = map_option FsError (fst (fs_Del fsd [k1] fs1))) \<and>
    (AList.delete k3 (rd (rd (sts t) k1) k2) \<noteq> [] \<or> AList.delete k2 (rd (sts t) k1) \<noteq> [] \<longrightarrow>
       map_of (sts (fst (Del fsd t st))) k1 \<noteq> None \<and>
       m (fst (Del fsd t st)) = fs1 \<and> snd (Del fsd t st) = None) \<and>
    (AList.delete k3 (rd (rd (sts t) k1) k2) \<noteq> [] \<longrightarrow>
       map_of (rd (sts (fst (Del fsd t st))) k1) k2 =
         Some (AList.delete k3 (rd (rd (sts t) k1) k2)))"
proof -
  have "leaf (sts (fst (Del fsd t st))) k1 k2 k3 = None" by (simp add: leaf_Del [OF assms(1)])
  moreover have "AList.delete k3 (rd (rd (sts t) k1) k2) = [] \<longrightarrow>
       map_of (rd (sts (fst (Del fsd t st))) k1) k2 = None"
    by (simp add: Del_file_ok [OF assms] pruned2_def rd_update rd_delete map_of_delete_if)
  moreover have "AList.delete k3 (rd (rd (sts t) k1) k2) = [] \<and> AList.delete k2 (rd (sts t) k1) = [] \<longrightarrow>
       map_of (sts (fst (Del fsd t st))) k1 = None \<and>
       m (fst (Del fsd t st)) = snd (fs_Del fsd [k1] fs1) \<and>
       snd (Del fsd t st) = map_option FsError (fst (fs_Del fsd [k1] fs1))"
    by (simp add: Del_file_ok [OF assms] pruned2_def map_of_delete_if)
  moreover have "AList.delete k3 (rd (rd (sts t) k1) k2) \<noteq> [] \<or> AList.delete k2 (rd (sts t) k1) \<noteq> [] \<longrightarrow>
       map_of (sts (fst (Del fsd t st))) k1 \<noteq> None \<and>
       m (fst (Del fsd t st)) = fs1 \<and> snd (Del fsd t st) = None"
    by (auto simp add: Del_file_ok [OF assms] pruned2_def map_of_update)
  moreover have "AList.delete k3 (rd (rd (sts t) k1) k2) \<noteq> [] \<longrightarrow>
       map_of (rd (sts (fst (Del fsd t st))) k1) k2 =
         Some (AList.delete k3 (rd (rd (sts t) k1) k2))"
    by (simp add: Del_file_ok [OF assms] pruned2_def rd_update map_of_update)
  ultimately show ?thesis by blast
qed

theorem Del_success_prunes_witness:
  "keyf (xstore1 xdisk) (''a'', ''x'', ''c'') = (''a'', ''x'', ''c'') \<and>
   leaf (sts (xstore1 xdisk)) ''a'' ''x'' ''c'' = Some (''a'', ''x'', ''c'') \<and>
   fs_Del (disk_fsys xdisk) [''a'', ''c'' @ ''.json''] (m (xstore1 xdisk))
     = (None, \<lparr>d_root = ''/st'', d_dirs = [(''a'', [])], d_faulty = []\<rparr>) \<and>
   AList.delete ''c'' (rd (rd (sts (xstore1 xdisk)) ''a'') ''x'') = [] \<and>
   AList.delete ''x'' (rd (sts (xstore1 xdisk)) ''a'') = [] \<and>
   map_of (sts (fst (Del (disk_fsys xdisk) (xstore1 xdisk) (''a'', ''x'', ''c'')))) ''a'' = None \<and>
   m (fst (Del (disk_fsys xdisk) (xstore1 xdisk) (''a'', ''x'', ''c''))) = xdisk \<and>
   snd (Del (disk_fsys xdisk) (xstore1 xdisk) (''a'', ''x'', ''c'')) = None"
proof -
  have 1: "keyf (xstore1 xdisk) (''a'', ''x'', ''c'') = (''a'', ''x'', ''c'')"
    by (simp add: xstore1_good xkeyf_def)
  have 2: "leaf (sts (xstore1 xdisk)) ''a'' ''x'' ''c'' = Some (''a'', ''x'', ''c'')"
    by (simp add: xstore1_good leaf_def rd_def)
  have 3: "fs_Del (disk_fsys xdisk) [''a'', ''c'' @ ''.json''] (m (xstore1 xdisk))
     = (None, \<lparr>d_root = ''/st'', d_dirs = [(''a'', [])], d_faulty = []\<rparr>)"
    by (simp add: xstore1_good disk_fsys_def disk_Del_def)
  have 4: "AList.delete ''c'' (rd (rd (sts (xstore1 xdisk)) ''a'') ''x'') = []"
    by (simp add: xstore1_good rd_def)
  have 5: "AList.delete ''x'' (rd (sts (xstore1 xdisk)) ''a'') = []"
    by (simp add: xstore1_good rd_def)
  have 6: "fs_Del (disk_fsys xdisk) [''a''] \<lparr>d_root = ''/st'', d_dirs = [(''a'', [])], d_faulty = []\<rparr>
     = (None, xdisk)"
    by (simp add: disk_fsys_def disk_Del_def xdisk_def)
  show ?thesis using Del_success_prunes [OF 1 2 3] 1 2 3 4 5 6 by simp
qed

text \<open>
  C6. When a level of the token's triple is missing from the index, \<open>Del\<close> returns
  success and the store after the call is the store before it (nothing was asked of the
  file store). And whatever \<open>Add\<close> and a first \<open>Del\<close> of a token returned, a second
  \<open>Del\<close> of it is such a call.
\<close>

theorem Del_absent_noop:
  assumes "keyf t st = (k1, k2, k3)"
  shows "(map_of (sts t) k1 = None \<or> map_of (rd (sts t) k1) k2 = None \<or>
          map_of (rd (rd (sts t) k1) k2) k3 = None \<longrightarrow> Del fsd t st = (t, None)) \<and>
         Del fsd (fst (Del fsd (fst (Add fsd t st)) st)) st =
           (fst (Del fsd (fst (Add fsd t st)) st), None)"
proof -
  have "map_of (sts t) k1 = None \<or> map_of (rd (sts t) k1) k2 = None \<or>
          map_of (rd (rd (sts t) k1) k2) k3 = None \<longrightarrow> Del fsd t st = (t, None)"
  proof
    assume "map_of (sts t) k1 = None \<or> map_of (rd (sts t) k1) k2 = None \<or>
         map_of (rd (rd (sts t) k1) k2) k3 = None"
    then have "leaf (sts t) k1 k2 k3 = None" by (auto simp: leaf_def rd_def)
    then show "Del fsd t st = (t, None)" using assms by (simp add: Del_absent)
  qed
  moreover have "Del fsd (fst (Del fsd (fst (Add fsd t st)) st)) st =
           (fst (Del fsd (fst (Add fsd t st)) st), None)"
  proof -
    let ?t1 = "fst (Add fsd t st)"
    let ?t2 = "fst (Del fsd ?t1 st)"
    have k1: "keyf ?t1 st = (k1, k2, k3)" using assms by (simp add: keyf_Add)
    then have k2: "keyf ?t2 st = (k1, k2, k3)" by (simp add: keyf_Del)
    have "leaf (sts ?t2) k1 k2 k3 = None" by (simp add: leaf_Del [OF k1])
    then show "Del fsd ?t2 st = (?t2, None)" using k2 by (simp add: Del_absent)
  qed
  ultimately show ?thesis by blast
qed

theorem Del_absent_noop_witness:
  "keyf (xstore xdisk) (''a'', ''x'', ''c'') = (''a'', ''x'', ''c'') \<and>
   map_of (sts (xstore xdisk)) ''a'' = None \<and>
   Del (disk_fsys xdisk) (xstore xdisk) (''a'', ''x'', ''c'') = (xstore xdisk, None) \<and>
   snd (Del (disk_fsys xdisk)
          (fst (Del (disk_fsys xdisk) (fst (Add (disk_fsys xdisk) (xstore xdisk) (''a'', ''x'', ''c'')))
                  (''a'', ''x'', ''c'')))
          (''a'', ''x'', ''c'')) = None"
proof -
  have 1: "keyf (xstore xdisk) (''a'', ''x'', ''c'') = (''a'', ''x'', ''c'')"
    by (simp add: xstore_def xkeyf_def)
  have 2: "map_of (sts (xstore xdisk)) ''a'' = None"
    by (simp add: xstore_def)
  show ?thesis using Del_absent_noop [OF 1, of "disk_fsys xdisk"] 1 2 by simp
qed

section \<open>SettlingAt\<close>

text \<open>The loop of lines 180 to 184, started with a count \<open>c\<close> already in the map.\<close>

lemma count_loop:
  fixes c :: int
  assumes "0 \<le> c"
  shows "foldl (\<lambda>r st. if P st
                   then AList.update rpk ((case map_of r rpk of None \<Rightarrow> 0 | Some c \<Rightarrow> c) + 1) r
                   else r) (if c = 0 then [] else [(rpk, c)]) xs =
         (if c + int (length (filter P xs)) = 0 then [] else [(rpk, c + int (length (filter P xs)))])"
  using assms
proof (induction xs arbitrary: c)
  case Nil
  then show ?case by simp
next
  case (Cons x xs)
  show ?case
  proof (cases "P x")
    case True
    have "0 \<le> c + 1" using Cons.prems by simp
    from Cons.IH [OF this] True Cons.prems show ?thesis
      by (cases "c = 0") (simp_all add: add.assoc)
  next
    case False
    with Cons.IH [OF Cons.prems] show ?thesis by simp
  qed
qed

text \<open>
  C8. \<open>SettlingAt\<close> returns the empty map when no token of \<open>Filter "" rpk\<close> is
  settling at \<open>utime\<close>, and otherwise the map of the one key \<open>rpk\<close> to the number of
  those tokens, which is not zero.
\<close>

theorem SettlingAt_result:
  "SettlingAt P t rpk utime =
     (if length (filter (\<lambda>st. P st utime) (Filter t [] rpk)) = 0 then []
      else [(rpk, int (length (filter (\<lambda>st. P st utime) (Filter t [] rpk))))])"
  using count_loop [of 0 "\<lambda>st. P st utime" rpk "Filter t [] rpk"]
  by (simp add: SettlingAt_def)

section \<open>Empty inner maps\<close>

lemma set_update_subset: "set (AList.update k v xs) \<subseteq> insert (k, v) (set xs)"
  by (induction xs) auto

lemma set_delete_subset: "set (AList.delete k xs) \<subseteq> set xs"
  by (induction xs) auto

lemma no_empty_iff:
  "no_empty s \<longleftrightarrow>
     (\<forall>k1 m2. (k1, m2) \<in> set s \<longrightarrow> m2 \<noteq> [] \<and> (\<forall>k2 m1. (k2, m1) \<in> set m2 \<longrightarrow> m1 \<noteq> []))"
  by (auto simp: no_empty_def)

lemma no_empty_update:
  assumes "no_empty s" and "m2 \<noteq> []" and "\<forall>k2 m1. (k2, m1) \<in> set m2 \<longrightarrow> m1 \<noteq> []"
  shows "no_empty (AList.update k1 m2 s)"
  unfolding no_empty_iff
proof (intro allI impI)
  fix a b assume "(a, b) \<in> set (AList.update k1 m2 s)"
  then have "(a, b) = (k1, m2) \<or> (a, b) \<in> set s" using set_update_subset [of k1 m2 s] by blast
  then show "b \<noteq> [] \<and> (\<forall>k2 m1. (k2, m1) \<in> set b \<longrightarrow> m1 \<noteq> [])"
    using assms unfolding no_empty_iff by blast
qed

lemma no_empty_delete: "no_empty s \<Longrightarrow> no_empty (AList.delete k1 s)"
  using set_delete_subset [of k1 s] unfolding no_empty_iff by blast

lemma no_empty_rd:
  assumes "no_empty s"
  shows "\<forall>k2 m1. (k2, m1) \<in> set (rd s k1) \<longrightarrow> m1 \<noteq> []"
proof (cases "map_of s k1")
  case None
  then show ?thesis by (simp add: rd_def)
next
  case (Some m2)
  then have "(k1, m2) \<in> set s" by (rule map_of_SomeD)
  moreover have "rd s k1 = m2" using Some by (simp add: rd_def)
  ultimately show ?thesis using assms unfolding no_empty_iff by blast
qed

lemma no_empty_Add:
  assumes "no_empty (sts t)"
  shows "no_empty (sts (fst (Add fsd t st)))"
proof -
  obtain k1 k2 k3 where k: "keyf t st = (k1, k2, k3)" by (cases "keyf t st")
  show ?thesis
  proof (cases "leaf (sts t) k1 k2 k3")
    case None
    let ?m1 = "AList.update k3 st (rd (rd (sts t) k1) k2)"
    let ?m2 = "AList.update k2 ?m1 (rd (sts t) k1)"
    have "\<forall>b m1. (b, m1) \<in> set ?m2 \<longrightarrow> m1 \<noteq> []"
    proof (intro allI impI)
      fix b m1 assume "(b, m1) \<in> set ?m2"
      then have "(b, m1) = (k2, ?m1) \<or> (b, m1) \<in> set (rd (sts t) k1)"
        using set_update_subset [of k2 ?m1 "rd (sts t) k1"] by blast
      then show "m1 \<noteq> []" using no_empty_rd [OF assms, of k1] by (elim disjE) auto
    qed
    then have "no_empty (AList.update k1 ?m2 (sts t))"
      using assms by (intro no_empty_update) simp_all
    then show ?thesis by (simp add: Add_fresh [OF k None])
  next
    case (Some old)
    then show ?thesis using assms by (simp add: Add_dup [OF k Some])
  qed
qed

lemma no_empty_Del:
  assumes "no_empty (sts t)" and "keyf t st = (k1, k2, k3)"
    and "leaf (sts t) k1 k2 k3 = None \<or> fst (fs_Del fsd [k1, k3 @ ''.json''] (m t)) = None"
  shows "no_empty (sts (fst (Del fsd t st)))"
proof (cases "leaf (sts t) k1 k2 k3")
  case None
  then show ?thesis using assms by (simp add: Del_absent)
next
  case (Some old)
  with assms(3) obtain fs1 where fd: "fs_Del fsd [k1, k3 @ ''.json''] (m t) = (None, fs1)"
    by (cases "fs_Del fsd [k1, k3 @ ''.json''] (m t)") auto
  let ?m1 = "AList.delete k3 (rd (rd (sts t) k1) k2)"
  let ?p = "pruned2 (sts t) k1 k2 k3"
  have inner: "\<forall>b m1. (b, m1) \<in> set ?p \<longrightarrow> m1 \<noteq> []"
  proof (intro allI impI)
    fix b m1 assume in_p: "(b, m1) \<in> set ?p"
    show "m1 \<noteq> []"
    proof (cases "?m1 = []")
      case True
      then have "(b, m1) \<in> set (rd (sts t) k1)"
        using in_p set_delete_subset [of k2 "rd (sts t) k1"] by (auto simp: pruned2_def)
      then show ?thesis using no_empty_rd [OF assms(1), of k1] by blast
    next
      case False
      then have "(b, m1) = (k2, ?m1) \<or> (b, m1) \<in> set (rd (sts t) k1)"
        using in_p set_update_subset [of k2 ?m1 "rd (sts t) k1"] by (auto simp: pruned2_def)
      then show ?thesis using False no_empty_rd [OF assms(1), of k1] by (elim disjE) auto
    qed
  qed
  show ?thesis
  proof (cases "?p = []")
    case True
    then show ?thesis using assms(1)
      by (simp add: Del_file_ok [OF assms(2) Some fd] no_empty_delete)
  next
    case False
    then have "no_empty (AList.update k1 ?p (sts t))"
      using assms(1) inner by (intro no_empty_update) simp_all
    then show ?thesis using False by (simp add: Del_file_ok [OF assms(2) Some fd])
  qed
qed

lemma fst_run_Cons: "fst (run fsd t (p # ps)) = fst (run fsd (fst (step fsd t p)) ps)"
  by (simp split: prod.splits)

text \<open>
  C3, as stated, fails: a \<open>Del\<close> whose file deletion is refused returns before the
  two \<open>len\<close> tests and leaves the emptied maps in the index.
\<close>

theorem empty_inner_map_counterexample:
  "\<not> no_empty (sts (fst (run (disk_fsys xdisk_bad) (xstore xdisk_bad)
        [OpAdd (''a'', ''x'', ''c''), OpDel (''a'', ''x'', ''c'')])))"
proof -
  have k: "keyf (xstore1 xdisk_bad) (''a'', ''x'', ''c'') = (''a'', ''x'', ''c'')"
    by (simp add: xstore1_bad xkeyf_def)
  have l: "leaf (sts (xstore1 xdisk_bad)) ''a'' ''x'' ''c'' = Some (''a'', ''x'', ''c'')"
    by (simp add: xstore1_bad leaf_def rd_def)
  have d: "fs_Del (disk_fsys xdisk_bad) [''a'', ''c'' @ ''.json''] (m (xstore1 xdisk_bad))
     = (Some Denied, xdisk_bad)"
    unfolding xstore1_bad by (simp add: disk_fsys_def disk_Del_def xdisk_bad_def)
  have "sts (fst (Del (disk_fsys xdisk_bad) (xstore1 xdisk_bad) (''a'', ''x'', ''c'')))
          = [(''a'', [(''x'', [])])]"
    unfolding Del_file_error [OF k l d] by (simp add: xstore1_bad rd_def)
  moreover have "fst (run (disk_fsys xdisk_bad) (xstore xdisk_bad)
        [OpAdd (''a'', ''x'', ''c''), OpDel (''a'', ''x'', ''c'')])
      = fst (Del (disk_fsys xdisk_bad) (xstore1 xdisk_bad) (''a'', ''x'', ''c''))"
    unfolding fst_run_Cons by (simp add: step_def xstore1_def)
  ultimately show ?thesis by (simp add: no_empty_def)
qed

text \<open>
  C3, amended. From an index without empty inner maps (the empty index is one), after
  every sequence of \<open>Add\<close> and \<open>Del\<close> calls in which no \<open>Del\<close> meets a failing
  deletion of its token's file, the index has no empty inner map.
\<close>

theorem no_empty_preserved:
  assumes "no_empty (sts t)" and "file_dels_ok fsd t ops"
  shows "no_empty (sts (fst (run fsd t ops)))"
  using assms
proof (induction ops arbitrary: t)
  case Nil
  then show ?case by simp
next
  case (Cons p ops)
  show ?case
  proof (cases p)
    case (OpAdd st)
    have 1: "no_empty (sts (fst (Add fsd t st)))" using Cons.prems(1) by (rule no_empty_Add)
    have 2: "file_dels_ok fsd (fst (Add fsd t st)) ops" using Cons.prems(2) OpAdd by simp
    have "fst (run fsd t (p # ops)) = fst (run fsd (fst (Add fsd t st)) ops)"
      unfolding fst_run_Cons by (simp add: OpAdd step_def)
    then show ?thesis using Cons.IH [OF 1 2] by simp
  next
    case (OpDel st)
    obtain k1 k2 k3 where k: "keyf t st = (k1, k2, k3)" by (cases "keyf t st")
    have ok: "leaf (sts t) k1 k2 k3 = None \<or> fst (fs_Del fsd [k1, k3 @ ''.json''] (m t)) = None"
      using Cons.prems(2) OpDel k by simp
    have 1: "no_empty (sts (fst (Del fsd t st)))" by (rule no_empty_Del [OF Cons.prems(1) k ok])
    have 2: "file_dels_ok fsd (fst (Del fsd t st)) ops" using Cons.prems(2) OpDel by simp
    have "fst (run fsd t (p # ops)) = fst (run fsd (fst (Del fsd t st)) ops)"
      unfolding fst_run_Cons by (simp add: OpDel step_def)
    then show ?thesis using Cons.IH [OF 1 2] by simp
  qed
qed


theorem no_empty_preserved_witness:
  "no_empty (sts (xstore xdisk)) \<and>
   file_dels_ok (disk_fsys xdisk) (xstore xdisk)
     [OpAdd (''a'', ''x'', ''c''), OpDel (''a'', ''x'', ''c'')] \<and>
   no_empty (sts (fst (run (disk_fsys xdisk) (xstore xdisk)
     [OpAdd (''a'', ''x'', ''c''), OpDel (''a'', ''x'', ''c'')])))"
proof -
  have 1: "no_empty (sts (xstore xdisk))" by (simp add: xstore_def no_empty_def)
  have 2: "file_dels_ok (disk_fsys xdisk) (xstore xdisk)
     [OpAdd (''a'', ''x'', ''c''), OpDel (''a'', ''x'', ''c'')]"
    unfolding file_dels_ok.simps xstore1_def [symmetric]
    unfolding xstore1_good by (simp add: xkeyf_def disk_fsys_def disk_Del_def)
  show ?thesis using no_empty_preserved [OF 1 2] 1 2 by simp
qed

section \<open>The index as a set of leaves\<close>

lemma select_none:
  "b \<notin> fst ` set xs \<Longrightarrow> concat (map (\<lambda>(k, v). if k = b then F v else []) xs) = []"
  by (induction xs) auto

lemma select_key:
  assumes "distinct (map fst xs)" and "F [] = []"
  shows "concat (map (\<lambda>(k, v). if k = b then F v else []) xs) = F (rd xs b)"
  using assms(1)
proof (induction xs)
  case Nil
  then show ?case using assms(2) by (simp add: rd_def)
next
  case (Cons p xs)
  obtain k v where p: "p = (k, v)" by (cases p)
  show ?case
  proof (cases "k = b")
    case True
    then have "b \<notin> fst ` set xs" using Cons.prems p by auto
    then show ?thesis using p True by (simp add: select_none rd_def)
  next
    case False
    then show ?thesis using Cons p by (simp add: rd_def)
  qed
qed

lemma vals_concat: "concat (map (\<lambda>(k, v). F v) xs) = concat (map F (vals xs))"
  by (induction xs) (auto simp: vals_def)

lemma entries_unfold: "entries s = concat (map (\<lambda>(k1, m2). entries2 k1 m2) s)"
  by (simp add: entries_def entries2_def entries1_def)

lemma sel1:
  "map token_of (filter (matches a b) (entries1 k1 k2 m1)) =
     (if (a = [] \<or> k1 = a) \<and> (b = [] \<or> k2 = b) then vals m1 else [])"
  by (induction m1) (auto simp: entries1_def matches_def token_of_def vals_def)

lemma sel2:
  assumes "distinct (map fst m2)"
  shows "map token_of (filter (matches a b) (entries2 k1 m2)) =
     (if a = [] \<or> k1 = a
      then (if b = [] then concat (map vals (vals m2)) else vals (rd m2 b))
      else [])"
proof -
  have "map token_of (filter (matches a b) (entries2 k1 m2)) =
        concat (map (\<lambda>(k2, m1). map token_of (filter (matches a b) (entries1 k1 k2 m1))) m2)"
    by (simp add: entries2_def filter_concat map_concat comp_def split_def)
  also have "\<dots> = (if a = [] \<or> k1 = a
      then (if b = [] then concat (map vals (vals m2)) else vals (rd m2 b))
      else [])"
  proof (cases "a = [] \<or> k1 = a")
    case False
    then show ?thesis by (simp add: sel1)
  next
    case True
    show ?thesis
    proof (cases "b = []")
      case True
      with \<open>a = [] \<or> k1 = a\<close> show ?thesis by (simp add: sel1 vals_concat)
    next
      case False
      have "concat (map (\<lambda>(k2, m1). if k2 = b then vals m1 else []) m2) = vals (rd m2 b)"
        by (rule select_key [OF assms]) (simp add: vals_def)
      with False \<open>a = [] \<or> k1 = a\<close> show ?thesis by (simp add: sel1)
    qed
  qed
  finally show ?thesis .
qed

lemma wf_index_Cons:
  "wf_index ((k1, m2) # s) \<longleftrightarrow>
     k1 \<notin> fst ` set s \<and> distinct (map fst m2) \<and>
     (\<forall>(k2, m1) \<in> set m2. distinct (map fst m1)) \<and> wf_index s"
  by (auto simp: wf_index_def)

lemma sel3_all:
  assumes "wf_index s"
  shows "map token_of (filter (matches [] b) (entries s)) =
     concat (map (\<lambda>m2. if b = [] then concat (map vals (vals m2)) else vals (rd m2 b)) (vals s))"
  using assms
proof (induction s)
  case Nil
  then show ?case by (simp add: entries_def vals_def)
next
  case (Cons p s)
  obtain k1 m2 where p: "p = (k1, m2)" by (cases p)
  from Cons.prems p have d: "distinct (map fst m2)" and w: "wf_index s"
    by (simp_all add: wf_index_Cons)
  have "entries (p # s) = entries2 k1 m2 @ entries s" by (simp add: entries_unfold p)
  then show ?case using Cons.IH [OF w] sel2 [OF d, of "[]" b k1] by (simp add: p vals_def)
qed

lemma sel3_key:
  assumes "wf_index s" and "a \<noteq> []"
  shows "map token_of (filter (matches a b) (entries s)) =
     (if b = [] then concat (map vals (vals (rd s a))) else vals (rd (rd s a) b))"
proof -
  let ?F = "\<lambda>m2. if b = [] then concat (map vals (vals m2)) else vals (rd m2 b)"
  have F0: "?F [] = []" by (simp add: vals_def rd_def)
  have "map token_of (filter (matches a b) (entries s)) =
          concat (map (\<lambda>(k1, m2). if k1 = a then ?F m2 else []) s)"
    using assms(1)
  proof (induction s)
    case Nil
    then show ?case by (simp add: entries_def)
  next
    case (Cons p s)
    obtain k1 m2 where p: "p = (k1, m2)" by (cases p)
    from Cons.prems p have d: "distinct (map fst m2)" and w: "wf_index s"
      by (simp_all add: wf_index_Cons)
    have "entries (p # s) = entries2 k1 m2 @ entries s" by (simp add: entries_unfold p)
    then show ?case using Cons.IH [OF w] sel2 [OF d, of a b k1] assms(2) by (simp add: p)
  qed
  also have "\<dots> = ?F (rd s a)"
  proof -
    have "distinct (map fst s)" using assms(1) by (simp add: wf_index_def)
    then show ?thesis using F0 by (rule select_key [where F = ?F])
  qed
  finally show ?thesis by simp
qed

lemma Filter_entries:
  assumes "wf_index (sts t)"
  shows "Filter t a b = map token_of (filter (matches a b) (entries (sts t)))"
proof (cases "a = []")
  case True
  then show ?thesis using sel3_all [OF assms, of b]
    by (simp add: Filter_def)
next
  case False
  then show ?thesis using sel3_key [OF assms False, of b] by (simp add: Filter_def)
qed

lemma in_entries1: "(a, b, c, x) \<in> set (entries1 k1 k2 m1) \<longleftrightarrow> a = k1 \<and> b = k2 \<and> (c, x) \<in> set m1"
  by (induction m1) (auto simp: entries1_def)

lemma entries2_Cons: "entries2 k1 ((k2, m1) # m2) = entries1 k1 k2 m1 @ entries2 k1 m2"
  by (simp add: entries2_def)

lemma in_entries2:
  "(a, b, c, x) \<in> set (entries2 k1 m2) \<longleftrightarrow> a = k1 \<and> (\<exists>m1. (b, m1) \<in> set m2 \<and> (c, x) \<in> set m1)"
proof (induction m2)
  case Nil
  then show ?case by (simp add: entries2_def)
next
  case (Cons p m2)
  obtain k2 m1 where p: "p = (k2, m1)" by (cases p)
  show ?case unfolding p entries2_Cons set_append Un_iff Cons.IH in_entries1 by auto
qed

lemma entries_Cons: "entries ((k1, m2) # s) = entries2 k1 m2 @ entries s"
  by (simp add: entries_unfold)

lemma in_entries:
  "(k1, k2, k3, x) \<in> set (entries s) \<longleftrightarrow>
     (\<exists>m2 m1. (k1, m2) \<in> set s \<and> (k2, m1) \<in> set m2 \<and> (k3, x) \<in> set m1)"
proof (induction s)
  case Nil
  then show ?case by (simp add: entries_def)
next
  case (Cons p s)
  obtain a m2 where p: "p = (a, m2)" by (cases p)
  show ?case unfolding p entries_Cons set_append Un_iff Cons.IH in_entries2 by auto
qed

lemma wf_index_D:
  assumes "wf_index s"
  shows "distinct (map fst s)"
    and "(k1, m2) \<in> set s \<Longrightarrow> distinct (map fst m2)"
    and "(k1, m2) \<in> set s \<Longrightarrow> (k2, m1) \<in> set m2 \<Longrightarrow> distinct (map fst m1)"
  using assms by (auto simp: wf_index_def)

lemma wf_index_I:
  assumes "distinct (map fst s)"
    and "\<And>k1 m2. (k1, m2) \<in> set s \<Longrightarrow> distinct (map fst m2)"
    and "\<And>k1 m2 k2 m1. (k1, m2) \<in> set s \<Longrightarrow> (k2, m1) \<in> set m2 \<Longrightarrow> distinct (map fst m1)"
  shows "wf_index s"
  using assms by (auto simp: wf_index_def)

lemma distinct_map_of_iff: "distinct (map fst xs) \<Longrightarrow> (k, v) \<in> set xs \<longleftrightarrow> map_of xs k = Some v"
  by (auto dest: map_of_SomeD)

lemma entries_iff:
  assumes "wf_index s"
  shows "(k1, k2, k3, x) \<in> set (entries s) \<longleftrightarrow> leaf s k1 k2 k3 = Some x"
proof
  assume "(k1, k2, k3, x) \<in> set (entries s)"
  then obtain m2 m1 where 1: "(k1, m2) \<in> set s" and 2: "(k2, m1) \<in> set m2" and 3: "(k3, x) \<in> set m1"
    unfolding in_entries by blast
  have a: "map_of s k1 = Some m2"
    using wf_index_D(1) [OF assms] 1 by (rule map_of_is_SomeI)
  have b: "map_of m2 k2 = Some m1"
    using wf_index_D(2) [OF assms 1] 2 by (rule map_of_is_SomeI)
  have c: "map_of m1 k3 = Some x"
    using wf_index_D(3) [OF assms 1 2] 3 by (rule map_of_is_SomeI)
  show "leaf s k1 k2 k3 = Some x" by (simp add: leaf_def rd_def a b c)
next
  assume l: "leaf s k1 k2 k3 = Some x"
  have "(k1, rd s k1) \<in> set s" by (rule map_of_SomeD [OF leaf_SomeD(1) [OF l]])
  moreover have "(k2, rd (rd s k1) k2) \<in> set (rd s k1)" by (rule map_of_SomeD [OF leaf_SomeD(2) [OF l]])
  moreover have "(k3, x) \<in> set (rd (rd s k1) k2)" by (rule map_of_SomeD [OF leaf_SomeD(3) [OF l]])
  ultimately have "\<exists>m2 m1. (k1, m2) \<in> set s \<and> (k2, m1) \<in> set m2 \<and> (k3, x) \<in> set m1"
    by (intro exI conjI)
  then show "(k1, k2, k3, x) \<in> set (entries s)" by (simp only: in_entries)
qed

lemma keyed_iff:
  assumes "wf_index s"
  shows "keyed kf s \<longleftrightarrow> (\<forall>k1 k2 k3 x. leaf s k1 k2 k3 = Some x \<longrightarrow> kf x = (k1, k2, k3))"
  unfolding keyed_def using entries_iff [OF assms] by (auto simp: Ball_def)

lemma wf_rd1: 
  assumes "wf_index s"
  shows "distinct (map fst (rd s k1))" 
    and "(k2, m1) \<in> set (rd s k1) \<Longrightarrow> distinct (map fst m1)"
proof -
  have "distinct (map fst (rd s k1)) \<and> ((k2, m1) \<in> set (rd s k1) \<longrightarrow> distinct (map fst m1))"
  proof (cases "map_of s k1")
    case None
    then show ?thesis by (simp add: rd_def)
  next
    case (Some m2)
    then have in_s: "(k1, m2) \<in> set s" by (rule map_of_SomeD)
    have "rd s k1 = m2" using Some by (simp add: rd_def)
    then show ?thesis using wf_index_D(2) [OF assms in_s] wf_index_D(3) [OF assms in_s] by blast
  qed
  then show "distinct (map fst (rd s k1))"
    and "(k2, m1) \<in> set (rd s k1) \<Longrightarrow> distinct (map fst m1)" by blast+
qed

lemma wf_rd2:
  assumes "wf_index s"
  shows "distinct (map fst (rd (rd s k1) k2))"
proof (cases "map_of (rd s k1) k2")
  case None
  then show ?thesis by (simp add: rd_def)
next
  case (Some m1)
  then have "(k2, m1) \<in> set (rd s k1)" by (rule map_of_SomeD)
  then have "distinct (map fst m1)" by (rule wf_rd1(2) [OF assms])
  then show ?thesis using Some by (simp add: rd_def)
qed

lemma wf_index_update:
  assumes "wf_index s" and "distinct (map fst m2)"
    and "\<And>k2 m1. (k2, m1) \<in> set m2 \<Longrightarrow> distinct (map fst m1)"
  shows "wf_index (AList.update k1 m2 s)"
proof (rule wf_index_I)
  show "distinct (map fst (AList.update k1 m2 s))"
    using wf_index_D(1) [OF assms(1)] by (rule distinct_update)
next
  fix a b assume "(a, b) \<in> set (AList.update k1 m2 s)"
  then have "(a, b) = (k1, m2) \<or> (a, b) \<in> set s" using set_update_subset [of k1 m2 s] by blast
  then show "distinct (map fst b)" using assms(2) wf_index_D(2) [OF assms(1)] by (elim disjE) auto
next
  fix a b c d assume "(a, b) \<in> set (AList.update k1 m2 s)" and cd: "(c, d) \<in> set b"
  then have "(a, b) = (k1, m2) \<or> (a, b) \<in> set s" using set_update_subset [of k1 m2 s] by blast
  then show "distinct (map fst d)" using cd assms(3) wf_index_D(3) [OF assms(1)] by (elim disjE) auto
qed

lemma wf_index_delete: "wf_index s \<Longrightarrow> wf_index (AList.delete k1 s)"
proof (rule wf_index_I)
  assume w: "wf_index s"
  show "distinct (map fst (AList.delete k1 s))" using wf_index_D(1) [OF w] by (rule distinct_delete)
  show "\<And>a b. (a, b) \<in> set (AList.delete k1 s) \<Longrightarrow> distinct (map fst b)"
    using wf_index_D(2) [OF w] set_delete_subset [of k1 s] by blast
  show "\<And>a b c d. (a, b) \<in> set (AList.delete k1 s) \<Longrightarrow> (c, d) \<in> set b \<Longrightarrow> distinct (map fst d)"
    using wf_index_D(3) [OF w] set_delete_subset [of k1 s] by blast
qed

lemma wf2_update:
  assumes "wf_index s" and "distinct (map fst m1)"
  shows "distinct (map fst (AList.update k2 m1 (rd s k1)))"
    and "(b, d) \<in> set (AList.update k2 m1 (rd s k1)) \<Longrightarrow> distinct (map fst d)"
proof -
  show "distinct (map fst (AList.update k2 m1 (rd s k1)))"
    using wf_rd1(1) [OF assms(1)] by (rule distinct_update)
  assume "(b, d) \<in> set (AList.update k2 m1 (rd s k1))"
  then have "(b, d) = (k2, m1) \<or> (b, d) \<in> set (rd s k1)"
    using set_update_subset [of k2 m1 "rd s k1"] by blast
  then show "distinct (map fst d)" using assms(2) wf_rd1(2) [OF assms(1)] by (elim disjE) auto
qed

lemma wf_index_Add:
  assumes "wf_index (sts t)"
  shows "wf_index (sts (fst (Add fsd t st)))"
proof -
  obtain k1 k2 k3 where k: "keyf t st = (k1, k2, k3)" by (cases "keyf t st")
  show ?thesis
  proof (cases "leaf (sts t) k1 k2 k3")
    case None
    have "distinct (map fst (AList.update k3 st (rd (rd (sts t) k1) k2)))"
      using wf_rd2 [OF assms] by (rule distinct_update)
    note wf2_update [OF assms this]
    then have "wf_index (AList.update k1
        (AList.update k2 (AList.update k3 st (rd (rd (sts t) k1) k2)) (rd (sts t) k1)) (sts t))"
      by (intro wf_index_update [OF assms])
    then show ?thesis by (simp add: Add_fresh [OF k None])
  next
    case (Some old)
    then show ?thesis using assms by (simp add: Add_dup [OF k Some])
  qed
qed

lemma wf_pruned2:
  assumes "wf_index s"
  shows "distinct (map fst (pruned2 s k1 k2 k3))"
    and "(b, d) \<in> set (pruned2 s k1 k2 k3) \<Longrightarrow> distinct (map fst d)"
proof -
  have d1: "distinct (map fst (AList.delete k3 (rd (rd s k1) k2)))"
    using wf_rd2 [OF assms] by (rule distinct_delete)
  show "distinct (map fst (pruned2 s k1 k2 k3))"
    using wf2_update(1) [OF assms d1] distinct_delete [OF wf_rd1(1) [OF assms]]
    by (simp add: pruned2_def)
  assume "(b, d) \<in> set (pruned2 s k1 k2 k3)"
  then have "(b, d) \<in> set (AList.update k2 (AList.delete k3 (rd (rd s k1) k2)) (rd s k1))
      \<or> (b, d) \<in> set (rd s k1)"
    using set_delete_subset [of k2 "rd s k1"] by (auto simp: pruned2_def split: if_splits)
  then show "distinct (map fst d)"
    using wf2_update(2) [OF assms d1] wf_rd1(2) [OF assms] by (elim disjE) auto
qed

lemma wf_index_Del:
  assumes "wf_index (sts t)"
  shows "wf_index (sts (fst (Del fsd t st)))"
proof -
  obtain k1 k2 k3 where k: "keyf t st = (k1, k2, k3)" by (cases "keyf t st")
  show ?thesis
  proof (cases "leaf (sts t) k1 k2 k3")
    case None
    then show ?thesis using assms by (simp add: Del_absent [OF k None])
  next
    case (Some old)
    obtain err fs1 where fd: "fs_Del fsd [k1, k3 @ ''.json''] (m t) = (err, fs1)" by force
    have d1: "distinct (map fst (AList.delete k3 (rd (rd (sts t) k1) k2)))"
      using wf_rd2 [OF assms] by (rule distinct_delete)
    show ?thesis
    proof (cases err)
      case None
      have "wf_index (AList.update k1 (pruned2 (sts t) k1 k2 k3) (sts t))"
        using wf_pruned2 [OF assms] by (intro wf_index_update [OF assms])
      then show ?thesis using wf_index_delete [OF assms, of k1]
        by (simp add: Del_file_ok [OF k Some fd [unfolded None]])
    next
      case (Some e)
      have "wf_index (AList.update k1
          (AList.update k2 (AList.delete k3 (rd (rd (sts t) k1) k2)) (rd (sts t) k1)) (sts t))"
        using wf2_update [OF assms d1] by (intro wf_index_update [OF assms])
      then show ?thesis
        by (simp add: Del_file_error [OF k \<open>leaf (sts t) k1 k2 k3 = Some old\<close> fd [unfolded Some]])
    qed
  qed
qed

lemma leaf_Add:
  assumes "keyf t st = (k1, k2, k3)"
  shows "leaf (sts (fst (Add fsd t st))) a b c =
     (if (a, b, c) = (k1, k2, k3) \<and> leaf (sts t) k1 k2 k3 = None then Some st
      else leaf (sts t) a b c)"
proof (cases "leaf (sts t) k1 k2 k3")
  case None
  then show ?thesis by (simp add: Add_fresh [OF assms None] leaf_update3)
next
  case (Some old)
  then show ?thesis by (simp add: Add_dup [OF assms Some])
qed

lemma keyed_Add:
  assumes "wf_index (sts t)" and "keyed (keyf t) (sts t)"
  shows "keyed (keyf t) (sts (fst (Add fsd t st)))"
proof -
  obtain k1 k2 k3 where k: "keyf t st = (k1, k2, k3)" by (cases "keyf t st")
  show ?thesis
    unfolding keyed_iff [OF wf_index_Add [OF assms(1)]]
    using assms(2) k unfolding keyed_iff [OF assms(1)] leaf_Add [OF k]
    by (auto split: if_splits)
qed

lemma keyed_Del:
  assumes "wf_index (sts t)" and "keyed (keyf t) (sts t)"
  shows "keyed (keyf t) (sts (fst (Del fsd t st)))"
proof -
  obtain k1 k2 k3 where k: "keyf t st = (k1, k2, k3)" by (cases "keyf t st")
  show ?thesis
    unfolding keyed_iff [OF wf_index_Del [OF assms(1)]]
    using assms(2) unfolding keyed_iff [OF assms(1)] leaf_Del [OF k]
    by (auto split: if_splits)
qed

lemma in_Filter_iff:
  assumes "wf_index (sts t)"
  shows "x \<in> set (Filter t a b) \<longleftrightarrow>
     (\<exists>k1 k2 k3. leaf (sts t) k1 k2 k3 = Some x \<and> (a = [] \<or> k1 = a) \<and> (b = [] \<or> k2 = b))"
proof -
  have "x \<in> set (Filter t a b) \<longleftrightarrow>
      (\<exists>k1 k2 k3. (k1, k2, k3, x) \<in> set (entries (sts t)) \<and> (a = [] \<or> k1 = a) \<and> (b = [] \<or> k2 = b))"
    unfolding Filter_entries [OF assms] by (force simp: matches_def token_of_def)
  then show ?thesis by (simp add: entries_iff [OF assms])
qed

text \<open>The example store of four tokens, computed.\<close>

lemma xstore4_sts:
  "sts xstore4 =
     [(''a'', [(''x'', [(''c'', (''a'', ''x'', ''c''))]), (''y'', [(''d'', (''a'', ''y'', ''d''))]),
               ([], [(''f'', (''a'', [], ''f''))])]),
      (''b'', [(''x'', [(''e'', (''b'', ''x'', ''e''))])])]"
  unfolding xstore4_def fst_run_Cons step_def op.case
  unfolding xstore1_good
  by (simp add: Add_def xkeyf_def rd_def Let_def disk_fsys_def disk_Set_def split: prod.splits)

lemma xstore4_wf: "wf_index (sts xstore4)"
  unfolding xstore4_sts by (simp add: wf_index_def)

lemma xstore4_entries:
  "entries (sts xstore4) =
     [(''a'', ''x'', ''c'', (''a'', ''x'', ''c'')), (''a'', ''y'', ''d'', (''a'', ''y'', ''d'')),
      (''a'', [], ''f'', (''a'', [], ''f'')), (''b'', ''x'', ''e'', (''b'', ''x'', ''e''))]"
  unfolding xstore4_sts by (simp add: entries_def)

text \<open>
  C7. In a store whose maps hold each key once, \<open>Filter\<close> returns, up to the order:
  for \<open>("", "")\<close> the tokens of all leaves; for \<open>("", b)\<close> those of the leaves whose
  second key is \<open>b\<close>; for \<open>(a, "")\<close> those of the leaves whose first key is \<open>a\<close>;
  for \<open>(a, b)\<close> those of the leaves at \<open>a\<close> and \<open>b\<close>. The leaves listed by
  \<open>entries\<close> are the leaves of the index.
\<close>

theorem Filter_wildcards:
  assumes "wf_index (sts t)"
  shows "mset (Filter t [] []) = mset (map token_of (entries (sts t))) \<and>
    (b \<noteq> [] \<longrightarrow> mset (Filter t [] b) =
       mset (map token_of (filter (\<lambda>(k1, k2, k3, st). k2 = b) (entries (sts t))))) \<and>
    (a \<noteq> [] \<longrightarrow> mset (Filter t a []) =
       mset (map token_of (filter (\<lambda>(k1, k2, k3, st). k1 = a) (entries (sts t))))) \<and>
    (a \<noteq> [] \<and> b \<noteq> [] \<longrightarrow> mset (Filter t a b) =
       mset (map token_of (filter (\<lambda>(k1, k2, k3, st). k1 = a \<and> k2 = b) (entries (sts t))))) \<and>
    (\<forall>k1 k2 k3 st. (k1, k2, k3, st) \<in> set (entries (sts t)) \<longleftrightarrow> leaf (sts t) k1 k2 k3 = Some st)"
proof -
  let ?es = "entries (sts t)"
  have 1: "filter (matches [] []) ?es = ?es"
    by (simp add: matches_def)
  have 2: "b \<noteq> [] \<Longrightarrow> filter (matches [] b) ?es = filter (\<lambda>(k1, k2, k3, st). k2 = b) ?es"
    by (rule filter_cong) (auto simp: matches_def)
  have 3: "a \<noteq> [] \<Longrightarrow> filter (matches a []) ?es = filter (\<lambda>(k1, k2, k3, st). k1 = a) ?es"
    by (rule filter_cong) (auto simp: matches_def)
  have 4: "a \<noteq> [] \<Longrightarrow> b \<noteq> [] \<Longrightarrow>
      filter (matches a b) ?es = filter (\<lambda>(k1, k2, k3, st). k1 = a \<and> k2 = b) ?es"
    by (rule filter_cong) (auto simp: matches_def)
  have "Filter t [] [] = map token_of ?es"
    unfolding Filter_entries [OF assms] 1 ..
  moreover have "b \<noteq> [] \<longrightarrow>
      Filter t [] b = map token_of (filter (\<lambda>(k1, k2, k3, st). k2 = b) ?es)"
    unfolding Filter_entries [OF assms] using 2 by simp
  moreover have "a \<noteq> [] \<longrightarrow>
      Filter t a [] = map token_of (filter (\<lambda>(k1, k2, k3, st). k1 = a) ?es)"
    unfolding Filter_entries [OF assms] using 3 by simp
  moreover have "a \<noteq> [] \<and> b \<noteq> [] \<longrightarrow>
      Filter t a b = map token_of (filter (\<lambda>(k1, k2, k3, st). k1 = a \<and> k2 = b) ?es)"
    unfolding Filter_entries [OF assms] using 4 by simp
  moreover have "\<forall>k1 k2 k3 st. (k1, k2, k3, st) \<in> set ?es \<longleftrightarrow> leaf (sts t) k1 k2 k3 = Some st"
    using entries_iff [OF assms] by blast
  ultimately show ?thesis by simp
qed

theorem Filter_wildcards_witness:
  "wf_index (sts xstore4) \<and>
   mset (Filter xstore4 [] []) =
     {#(''a'', ''x'', ''c''), (''a'', ''y'', ''d''), (''a'', [], ''f''), (''b'', ''x'', ''e'')#} \<and>
   mset (Filter xstore4 [] ''x'') = {#(''a'', ''x'', ''c''), (''b'', ''x'', ''e'')#} \<and>
   mset (Filter xstore4 ''a'' []) =
     {#(''a'', ''x'', ''c''), (''a'', ''y'', ''d''), (''a'', [], ''f'')#} \<and>
   mset (Filter xstore4 ''a'' ''x'') = {#(''a'', ''x'', ''c'')#}"
  using Filter_wildcards [OF xstore4_wf, of "''x''" "''a''"] xstore4_wf
  by (simp add: xstore4_entries token_of_def)

text \<open>
  C10. Let \<open>Add\<close> of a token succeed in a store whose tokens sit at their keys. If the
  token's \<open>k2\<close> is empty, \<open>Filter k1 ""\<close> lists it and every \<open>Filter a b\<close> that
  lists it has \<open>b\<close> empty; likewise for an empty \<open>k1\<close>. And an empty argument matches
  every key of its level: \<open>Filter a ""\<close> lists whatever \<open>Filter a b\<close> lists, for
  every \<open>b\<close>, and \<open>Filter "" b\<close> whatever \<open>Filter a b\<close> lists, so no argument
  selects the tokens of the empty key alone.
\<close>

theorem empty_key_only_by_wildcard:
  assumes "wf_index (sts t)" and "keyed (keyf t) (sts t)"
    and "keyf t st = (k1, k2, k3)" and "snd (Add fsd t st) = None"
  shows "(k2 = [] \<longrightarrow> st \<in> set (Filter (fst (Add fsd t st)) k1 []) \<and>
            (\<forall>a b. st \<in> set (Filter (fst (Add fsd t st)) a b) \<longrightarrow> b = [])) \<and>
         (k1 = [] \<longrightarrow> st \<in> set (Filter (fst (Add fsd t st)) [] k2) \<and>
            (\<forall>a b. st \<in> set (Filter (fst (Add fsd t st)) a b) \<longrightarrow> a = [])) \<and>
         (\<forall>a b. set (Filter (fst (Add fsd t st)) a b) \<subseteq> set (Filter (fst (Add fsd t st)) a []) \<and>
                set (Filter (fst (Add fsd t st)) a b) \<subseteq> set (Filter (fst (Add fsd t st)) [] b))"
proof -
  let ?t = "fst (Add fsd t st)"
  have wf: "wf_index (sts ?t)" using assms(1) by (rule wf_index_Add)
  have "keyed (keyf t) (sts ?t)" using assms(1,2) by (rule keyed_Add)
  then have ky: "\<And>a b c x. leaf (sts ?t) a b c = Some x \<Longrightarrow> keyf t x = (a, b, c)"
    unfolding keyed_iff [OF wf] by blast
  have "leaf (sts t) k1 k2 k3 = None"
  proof (cases "leaf (sts t) k1 k2 k3")
    case (Some old)
    then show ?thesis using assms(4) by (simp add: Add_dup [OF assms(3) Some])
  qed simp
  then have lf: "leaf (sts ?t) k1 k2 k3 = Some st" by (simp add: leaf_Add [OF assms(3)])
  then have here: "st \<in> set (Filter ?t k1 k2)" by (rule leaf_in_Filter)
  have only: "(a = [] \<or> k1 = a) \<and> (b = [] \<or> k2 = b)" if "st \<in> set (Filter ?t a b)" for a b
  proof -
    from that obtain a' b' c' where l: "leaf (sts ?t) a' b' c' = Some st"
      and ab: "(a = [] \<or> a' = a) \<and> (b = [] \<or> b' = b)"
      unfolding in_Filter_iff [OF wf] by blast
    from ky [OF l] assms(3) have "a' = k1" "b' = k2" by simp_all
    then show ?thesis using ab by simp
  qed
  have sub: "set (Filter ?t a b) \<subseteq> set (Filter ?t a []) \<and> set (Filter ?t a b) \<subseteq> set (Filter ?t [] b)"
    for a b
    unfolding subset_iff in_Filter_iff [OF wf] by blast
  have A: "k2 = [] \<longrightarrow> st \<in> set (Filter ?t k1 []) \<and> (\<forall>a b. st \<in> set (Filter ?t a b) \<longrightarrow> b = [])"
    using here only by blast
  have B: "k1 = [] \<longrightarrow> st \<in> set (Filter ?t [] k2) \<and> (\<forall>a b. st \<in> set (Filter ?t a b) \<longrightarrow> a = [])"
    using here only by blast
  show ?thesis using A B sub by (intro conjI allI) blast+
qed

theorem empty_key_only_by_wildcard_witness:
  "wf_index (sts (xstore1 xdisk)) \<and> keyed (keyf (xstore1 xdisk)) (sts (xstore1 xdisk)) \<and>
   keyf (xstore1 xdisk) (''a'', [], ''f'') = (''a'', [], ''f'') \<and>
   snd (Add (disk_fsys xdisk) (xstore1 xdisk) (''a'', [], ''f'')) = None \<and>
   (''a'', [], ''f'') \<in> set (Filter (fst (Add (disk_fsys xdisk) (xstore1 xdisk) (''a'', [], ''f''))) ''a'' []) \<and>
   (''a'', [], ''f'') \<notin> set (Filter (fst (Add (disk_fsys xdisk) (xstore1 xdisk) (''a'', [], ''f''))) ''a'' ''x'')"
proof -
  have 1: "wf_index (sts (xstore1 xdisk))" by (simp add: xstore1_good wf_index_def)
  have 2: "keyed (keyf (xstore1 xdisk)) (sts (xstore1 xdisk))"
    by (simp add: xstore1_good keyed_def entries_def xkeyf_def)
  have 3: "keyf (xstore1 xdisk) (''a'', [], ''f'') = (''a'', [], ''f'')"
    by (simp add: xstore1_good xkeyf_def)
  have 4: "snd (Add (disk_fsys xdisk) (xstore1 xdisk) (''a'', [], ''f'')) = None"
    unfolding xstore1_good
    by (simp add: Add_def xkeyf_def rd_def Let_def disk_fsys_def disk_Set_def split: prod.splits)
  show ?thesis using empty_key_only_by_wildcard [OF 1 2 3 4] 1 2 3 4 by auto
qed

section \<open>Rebuilding the index from the directory\<close>

text \<open>Splitting the path of a file gives back its directory and its name.\<close>

lemma Split_nonempty: "Split s c \<noteq> []"
  by (induction s) (auto split: list.splits)

lemma Split_no_sep: "c \<notin> set s \<Longrightarrow> Split s c = [s]"
  by (induction s) auto

lemma Split_append: "Split (a @ c # b) c = Split a c @ Split b c"
proof (induction a)
  case Nil
  then show ?case by simp
next
  case (Cons x a)
  then show ?case using Split_nonempty [of a c] by (cases "Split a c") auto
qed

lemma join_file:
  assumes "k1 \<noteq> []" and "f \<noteq> []"
  shows "join (join p k1) f = (if p = [] then k1 @ CHR ''/'' # f else p @ CHR ''/'' # k1 @ CHR ''/'' # f)"
  using assms by (simp add: join_def)

lemma last_two:
  assumes "k1 \<noteq> []" and "f \<noteq> []" and "CHR ''/'' \<notin> set k1" and "CHR ''/'' \<notin> set f"
  shows "drop (length (Split (join (join p k1) f) CHR ''/'') - 2) (Split (join (join p k1) f) CHR ''/'')
           = [k1, f]"
    and "\<not> length (Split (join (join p k1) f) CHR ''/'') < 2"
proof -
  have s: "Split (k1 @ CHR ''/'' # f) CHR ''/'' = [k1, f]"
    using assms(3,4) by (simp add: Split_append Split_no_sep)
  have "Split (join (join p k1) f) CHR ''/'' = (if p = [] then [] else Split p CHR ''/'') @ [k1, f]"
  proof (cases "p = []")
    case True
    then show ?thesis using s assms(1,2) by (simp add: join_file)
  next
    case False
    have "Split (p @ CHR ''/'' # (k1 @ CHR ''/'' # f)) CHR ''/'' = Split p CHR ''/'' @ [k1, f]"
      unfolding Split_append [of p] s ..
    then show ?thesis using False assms(1,2) by (simp add: join_file)
  qed
  then show "drop (length (Split (join (join p k1) f) CHR ''/'') - 2) (Split (join (join p k1) f) CHR ''/'')
           = [k1, f]"
    and "\<not> length (Split (join (join p k1) f) CHR ''/'') < 2"
    by simp_all
qed

lemma HasSuffix_append: "HasSuffix (a @ b) b"
  by (simp add: HasSuffix_def)

text \<open>The walk skips what is not a record and stops at the first error.\<close>

lemma walkFn_skip: "\<not> visited ent \<Longrightarrow> walkFn fsd t ent = (t, None)"
  by (cases ent) (auto simp: visited_def walkFn_def)

lemma walk_filter: "walk fsd t es = walk fsd t (filter visited es)"
  by (induction es arbitrary: t) (simp_all add: walkFn_skip)

lemma walk_append:
  "walk fsd t (xs @ ys) =
     (case walk fsd t xs of (t1, None) \<Rightarrow> walk fsd t1 ys | (t1, Some e) \<Rightarrow> (t1, Some e))"
  by (induction xs arbitrary: t) (auto split: prod.splits option.splits)

lemma walk_error:
  assumes "snd (walkFn fsd (fst (walk fsd t es1)) ent) \<noteq> None"
  shows "snd (walk fsd t (es1 @ ent # es2)) \<noteq> None"
  using assms by (auto simp: walk_append split: prod.splits option.splits)

lemma disk_ok_D:
  assumes "disk_ok kf d"
  shows "d_faulty d = []" and "distinct (map fst (d_dirs d))"
    and "(k1, fl) \<in> set (d_dirs d) \<Longrightarrow> plain_dir k1 \<and> distinct (map fst fl)"
    and "(k1, fl) \<in> set (d_dirs d) \<Longrightarrow> (f, c) \<in> set fl \<Longrightarrow>
           \<exists>x b c3. c = Record x \<and> kf x = (k1, b, c3) \<and> f = c3 @ ''.json'' \<and> CHR ''/'' \<notin> set c3"
proof -
  show "d_faulty d = []" and "distinct (map fst (d_dirs d))"
    using assms by (simp_all add: disk_ok_def)
  show "(k1, fl) \<in> set (d_dirs d) \<Longrightarrow> plain_dir k1 \<and> distinct (map fst fl)"
    using assms by (auto simp: disk_ok_def)
  assume 1: "(k1, fl) \<in> set (d_dirs d)" and 2: "(f, c) \<in> set fl"
  from assms 1 have "\<forall>(f, c) \<in> set fl.
            (case c of Garbage \<Rightarrow> False
             | Record x \<Rightarrow> (case kf x of (a, b, c3) \<Rightarrow>
                 a = k1 \<and> c3 @ ''.json'' = f \<and> CHR ''/'' \<notin> set c3))"
    unfolding disk_ok_def by blast
  with 2 have 3: "(case c of Garbage \<Rightarrow> False
             | Record x \<Rightarrow> (case kf x of (a, b, c3) \<Rightarrow>
                 a = k1 \<and> c3 @ ''.json'' = f \<and> CHR ''/'' \<notin> set c3))" by blast
  then obtain x where c: "c = Record x" by (cases c) auto
  obtain a b c3 where k: "kf x = (a, b, c3)" by (cases "kf x")
  from 3 c k show "\<exists>x b c3. c = Record x \<and> kf x = (k1, b, c3) \<and> f = c3 @ ''.json'' \<and> CHR ''/'' \<notin> set c3"
    by auto
qed

lemma in_dfiles_set:
  "(k1, f, c) \<in> set (dfiles d) \<longleftrightarrow> (\<exists>fl. (k1, fl) \<in> set (d_dirs d) \<and> (f, c) \<in> set fl)"
proof -
  have "(k1, f, c) \<in> set (dfiles d) \<longleftrightarrow>
        (\<exists>p \<in> set (sort_key fst (d_dirs d)). (k1, f, c) \<in> set (case p of (k, fl) \<Rightarrow> map (\<lambda>(f, c). (k, f, c)) (sort_key fst fl)))"
    by (simp add: dfiles_def)
  also have "\<dots> \<longleftrightarrow> (\<exists>p \<in> set (d_dirs d). fst p = k1 \<and> (f, c) \<in> set (snd p))"
    by (auto simp: split_def)
  also have "\<dots> \<longleftrightarrow> (\<exists>fl. (k1, fl) \<in> set (d_dirs d) \<and> (f, c) \<in> set fl)"
    by force
  finally show ?thesis .
qed

lemma in_dfiles:
  assumes "disk_ok kf d"
  shows "(k1, f, c) \<in> set (dfiles d) \<longleftrightarrow> map_of (rd (d_dirs d) k1) f = Some c"
proof
  assume "(k1, f, c) \<in> set (dfiles d)"
  then obtain fl where 1: "(k1, fl) \<in> set (d_dirs d)" and 2: "(f, c) \<in> set fl"
    unfolding in_dfiles_set by blast
  have a: "map_of (d_dirs d) k1 = Some fl"
    using disk_ok_D(2) [OF assms] 1 by (rule map_of_is_SomeI)
  have "distinct (map fst fl)" using disk_ok_D(3) [OF assms 1] by simp
  then have "map_of fl f = Some c" using 2 by (rule map_of_is_SomeI)
  then show "map_of (rd (d_dirs d) k1) f = Some c" using a by (simp add: rd_def)
next
  assume l: "map_of (rd (d_dirs d) k1) f = Some c"
  then have "rd (d_dirs d) k1 \<noteq> []" by auto
  then have "map_of (d_dirs d) k1 = Some (rd (d_dirs d) k1)" by (rule rd_nonempty)
  then have "(k1, rd (d_dirs d) k1) \<in> set (d_dirs d)" by (rule map_of_SomeD)
  moreover have "(f, c) \<in> set (rd (d_dirs d) k1)" using l by (rule map_of_SomeD)
  ultimately show "(k1, f, c) \<in> set (dfiles d)" unfolding in_dfiles_set by blast
qed

lemma distinct_fst_sort: "distinct (map fst (sort_key fst xs)) = distinct (map fst xs)"
proof -
  have "mset (map fst (sort_key fst xs)) = mset (map fst xs)" by simp
  then show ?thesis by (rule mset_eq_imp_distinct_iff)
qed

lemma distinct_flat2:
  assumes "distinct (map fst xs)" and "\<And>k fl. (k, fl) \<in> set xs \<Longrightarrow> distinct (map fst (G fl))"
  shows "distinct (map (\<lambda>(k1, f, c). (k1, f))
           (concat (map (\<lambda>(k1, fl). map (\<lambda>(f, c). (k1, f, c)) (G fl)) xs)))"
  using assms
proof (induction xs)
  case Nil
  then show ?case by simp
next
  case (Cons p xs)
  obtain k fl where p: "p = (k, fl)" by (cases p)
  have 1: "distinct (map (\<lambda>(k1, f, c). (k1, f)) (map (\<lambda>(f, c). (k, f, c)) (G fl)))"
  proof -
    have "map (\<lambda>(k1, f, c). (k1, f)) (map (\<lambda>(f, c). (k, f, c)) (G fl)) = map (Pair k) (map fst (G fl))"
      by (simp add: split_def)
    moreover have "distinct (map fst (G fl))" using Cons.prems(2) [of k fl] p by simp
    ultimately show ?thesis by (simp add: distinct_map inj_on_def)
  qed
  have 2: "distinct (map (\<lambda>(k1, f, c). (k1, f))
           (concat (map (\<lambda>(k1, fl). map (\<lambda>(f, c). (k1, f, c)) (G fl)) xs)))"
    using Cons.prems by (intro Cons.IH) auto
  have 3: "fst q \<noteq> k" if "q \<in> set (concat (map (\<lambda>(k1, fl). map (\<lambda>(f, c). (k1, f, c)) (G fl)) xs))" for q
  proof -
    from that have "fst q \<in> fst ` set xs" by (force simp: split_def)
    then show ?thesis using Cons.prems(1) p by auto
  qed
  have 4: "fst q = k" if "q \<in> set (map (\<lambda>(f, c). (k, f, c)) (G fl))" for q
    using that by (auto simp: split_def)
  have 5: "fst u = k" if "u \<in> set (map (\<lambda>(k1, f, c). (k1, f)) (map (\<lambda>(f, c). (k, f, c)) (G fl)))" for u
  proof -
    from that obtain q where "q \<in> set (map (\<lambda>(f, c). (k, f, c)) (G fl))" and "u = (\<lambda>(k1, f, c). (k1, f)) q"
      unfolding set_map [of "\<lambda>(k1, f, c). (k1, f)"] by blast
    then show ?thesis using 4 [of q] by (simp add: split_def)
  qed
  have 6: "fst u \<noteq> k"
    if "u \<in> set (map (\<lambda>(k1, f, c). (k1, f)) (concat (map (\<lambda>(k1, fl). map (\<lambda>(f, c). (k1, f, c)) (G fl)) xs)))" for u
  proof -
    from that obtain q where "q \<in> set (concat (map (\<lambda>(k1, fl). map (\<lambda>(f, c). (k1, f, c)) (G fl)) xs))"
      and "u = (\<lambda>(k1, f, c). (k1, f)) q"
      unfolding set_map [of "\<lambda>(k1, f, c). (k1, f)"] by blast
    then show ?thesis using 3 [of q] by (simp add: split_def)
  qed
  have "set (map (\<lambda>(k1, f, c). (k1, f)) (map (\<lambda>(f, c). (k, f, c)) (G fl))) \<inter>
        set (map (\<lambda>(k1, f, c). (k1, f)) (concat (map (\<lambda>(k1, fl). map (\<lambda>(f, c). (k1, f, c)) (G fl)) xs))) = {}"
    using 5 6 by blast
  then show ?case using 1 2 by (simp add: p)
qed

lemma distinct_dfiles:
  assumes "disk_ok kf d"
  shows "distinct (map (\<lambda>(k1, f, c). (k1, f)) (dfiles d))"
  unfolding dfiles_def
proof (rule distinct_flat2)
  show "distinct (map fst (sort_key fst (d_dirs d)))"
    using disk_ok_D(2) [OF assms] by (simp add: distinct_fst_sort)
  fix k fl assume "(k, fl) \<in> set (sort_key fst (d_dirs d))"
  then have "(k, fl) \<in> set (d_dirs d)" by simp
  then show "distinct (map fst (sort_key fst fl))"
    using disk_ok_D(3) [OF assms] by (simp add: distinct_fst_sort)
qed

lemma filter_concat_map:
  assumes "\<And>x. x \<in> set xs \<Longrightarrow> filter P (G x) = H x"
  shows "filter P (concat (map G xs)) = concat (map H xs)"
  using assms by (induction xs) simp_all

lemma filter_visited_Walk:
  assumes "disk_ok kf d" and "\<not> HasSuffix (last (Split p CHR ''/'')) ''.json''"
  shows "filter visited (disk_Walk p d) = map (fent p) (dfiles d)"
proof -
  let ?G = "\<lambda>(k1, fl). (join p k1, k1, None :: ioerr option) #
         map (\<lambda>(f, c). (join (join p k1) f, f, None)) (sort_key fst fl)"
  let ?H = "\<lambda>(k1, fl). map (fent p) (map (\<lambda>(f, c). (k1, f, c)) (sort_key fst fl))"
  have G: "filter visited (?G x) = ?H x" if "x \<in> set (sort_key fst (d_dirs d))" for x
  proof -
    obtain k1 fl where x: "x = (k1, fl)" by (cases x)
    then have in_d: "(k1, fl) \<in> set (d_dirs d)" using that by simp
    have "plain_dir k1" using disk_ok_D(3) [OF assms(1) in_d] by simp
    then have nd: "\<not> visited (join p k1, k1, None :: ioerr option)"
      by (simp add: visited_def plain_dir_def)
    have "visited (join (join p k1) f, f, None :: ioerr option)" if "(f, c) \<in> set (sort_key fst fl)" for f c
    proof -
      from that have "(f, c) \<in> set fl" by simp
      from disk_ok_D(4) [OF assms(1) in_d this] obtain c3 where "f = c3 @ ''.json''" by blast
      then show ?thesis by (simp add: visited_def HasSuffix_def)
    qed
    then have "filter visited (map (\<lambda>(f, c). (join (join p k1) f, f, None :: ioerr option)) (sort_key fst fl))
        = map (\<lambda>(f, c). (join (join p k1) f, f, None)) (sort_key fst fl)"
      by (intro filter_True) auto
    then show ?thesis using nd by (simp add: x fent_def split_def comp_def)
  qed
  have "filter visited (disk_Walk p d) = filter visited (concat (map ?G (sort_key fst (d_dirs d))))"
    using assms(2) by (simp add: disk_Walk_def visited_def)
  also have "\<dots> = concat (map ?H (sort_key fst (d_dirs d)))"
    using G by (rule filter_concat_map)
  also have "\<dots> = map (fent p) (dfiles d)"
    by (simp add: dfiles_def map_concat comp_def split_def)
  finally show ?thesis .
qed

lemma disk_Set_same:
  assumes "d_faulty d = []" and "map_of (rd (d_dirs d) k1) f = Some (Record x)"
  shows "disk_Set x [k1, f] d = (None, d)"
proof -
  from assms(2) have "rd (d_dirs d) k1 \<noteq> []" by auto
  then have 1: "map_of (d_dirs d) k1 = Some (rd (d_dirs d) k1)" by (rule rd_nonempty)
  have "AList.update f (Record x) (rd (d_dirs d) k1) = rd (d_dirs d) k1"
    using assms(2) by (rule update_triv)
  then have "AList.update k1 (AList.update f (Record x) (rd (d_dirs d) k1)) (d_dirs d) = d_dirs d"
    using 1 by (simp add: update_triv)
  then show ?thesis using assms(1) by (simp add: disk_Set_def)
qed

lemma walkFn_file:
  assumes ok: "disk_ok kf d" and mt: "m t = d" and kt: "keyf t = kf"
    and f: "(k1, f, c) \<in> set (dfiles d)"
  shows "\<exists>x b c3. c = Record x \<and> kf x = (k1, b, c3) \<and> f = c3 @ ''.json'' \<and>
           walkFn (disk_fsys d0) t (fent p (k1, f, c)) = Add (disk_fsys d0) t x \<and>
           (leaf (sts t) k1 b c3 = None \<longrightarrow>
              snd (Add (disk_fsys d0) t x) = None \<and> m (fst (Add (disk_fsys d0) t x)) = m t)"
proof -
  from f obtain fl where 1: "(k1, fl) \<in> set (d_dirs d)" and 2: "(f, c) \<in> set fl"
    unfolding in_dfiles_set by blast
  from disk_ok_D(4) [OF ok 1 2] obtain x b c3 where c: "c = Record x" and k: "kf x = (k1, b, c3)"
    and fn: "f = c3 @ ''.json''" and ns: "CHR ''/'' \<notin> set c3" by blast
  have pd: "plain_dir k1" using disk_ok_D(3) [OF ok 1] by simp
  then have k1: "k1 \<noteq> []" "CHR ''/'' \<notin> set k1" by (simp_all add: plain_dir_def)
  have f': "f \<noteq> []" "CHR ''/'' \<notin> set f" using fn ns by auto
  have on_disk: "map_of (rd (d_dirs d) k1) f = Some (Record x)"
    using f c by (simp add: in_dfiles [OF ok])
  have get: "disk_Get [k1, f] d = Inr x" using on_disk by (simp add: disk_Get_def)
  have w: "walkFn (disk_fsys d0) t (fent p (k1, f, c)) = Add (disk_fsys d0) t x"
    using last_two [OF k1(1) f'(1) k1(2) f'(2), of p] get mt
    by (simp add: walkFn_def fent_def fn HasSuffix_def Let_def disk_fsys_def)
  have a: "snd (Add (disk_fsys d0) t x) = None \<and> m (fst (Add (disk_fsys d0) t x)) = m t" if "leaf (sts t) k1 b c3 = None"
  proof -
    have kk: "keyf t x = (k1, b, c3)" using k kt by simp
    have "disk_Set x [k1, c3 @ ''.json''] (m t) = (None, m t)"
      using disk_ok_D(1) [OF ok] on_disk mt fn by (intro disk_Set_same) simp_all
    then show ?thesis unfolding Add_fresh [OF kk that] by (simp add: disk_fsys_def)
  qed
  have "c = Record x \<and> kf x = (k1, b, c3) \<and> f = c3 @ ''.json'' \<and>
           walkFn (disk_fsys d0) t (fent p (k1, f, c)) = Add (disk_fsys d0) t x \<and>
           (leaf (sts t) k1 b c3 = None \<longrightarrow>
              snd (Add (disk_fsys d0) t x) = None \<and> m (fst (Add (disk_fsys d0) t x)) = m t)"
    using c k fn w a by simp
  then show ?thesis by (intro exI)
qed

lemma walk_files:
  assumes ok: "disk_ok kf d"
  shows "m t = d \<Longrightarrow> keyf t = kf \<Longrightarrow> wf_index (sts t) \<Longrightarrow> set fs \<subseteq> set (dfiles d) \<Longrightarrow>
     distinct (map (\<lambda>(k1, f, c). (k1, f)) fs) \<Longrightarrow>
     (\<forall>k1 f x a b c. (k1, f, Record x) \<in> set fs \<longrightarrow> kf x = (a, b, c) \<longrightarrow> leaf (sts t) a b c = None) \<Longrightarrow>
     \<exists>t'. walk (disk_fsys d0) t (map (fent p) fs) = (t', None) \<and> m t' = d \<and> keyf t' = kf \<and>
          wf_index (sts t') \<and>
          (\<forall>a b c y. leaf (sts t') a b c = Some y \<longleftrightarrow>
             leaf (sts t) a b c = Some y \<or> (\<exists>k1 f. (k1, f, Record y) \<in> set fs \<and> kf y = (a, b, c)))"
proof (induction fs arbitrary: t)
  case Nil
  then show ?case by simp
next
  case (Cons q fs)
  obtain k1 f c where q: "q = (k1, f, c)" by (cases q)
  have in_d: "(k1, f, c) \<in> set (dfiles d)" using Cons.prems(4) q by simp
  from walkFn_file [OF ok Cons.prems(1,2) in_d, of d0 p]
  obtain x b c3 where c: "c = Record x" and k: "kf x = (k1, b, c3)" and fn: "f = c3 @ ''.json''"
    and w: "walkFn (disk_fsys d0) t (fent p (k1, f, c)) = Add (disk_fsys d0) t x"
    and a: "leaf (sts t) k1 b c3 = None \<longrightarrow>
              snd (Add (disk_fsys d0) t x) = None \<and> m (fst (Add (disk_fsys d0) t x)) = m t"
    by (elim exE conjE) (rule that)
  have free: "leaf (sts t) k1 b c3 = None"
    using Cons.prems(6) q c k by simp
  let ?t1 = "fst (Add (disk_fsys d0) t x)"
  have add: "Add (disk_fsys d0) t x = (?t1, None)" using a free by (simp add: prod_eq_iff)
  have kx: "keyf t x = (k1, b, c3)" using k Cons.prems(2) by simp
  have l1: "leaf (sts ?t1) a' b' c' = (if (a', b', c') = (k1, b, c3) then Some x else leaf (sts t) a' b' c')"
    for a' b' c'
    using free by (simp add: leaf_Add [OF kx])
  have p1: "m ?t1 = d" using Cons.prems(1) a free by simp
  have p2: "keyf ?t1 = kf" using Cons.prems(2) by (simp add: keyf_Add)
  have p3: "wf_index (sts ?t1)" using Cons.prems(3) by (rule wf_index_Add)
  have p4: "set fs \<subseteq> set (dfiles d)" using Cons.prems(4) by simp
  have p5: "distinct (map (\<lambda>(k1, f, c). (k1, f)) fs)" using Cons.prems(5) by simp
  have notin: "(k1, f) \<notin> set (map (\<lambda>(k1, f, c). (k1, f)) fs)" using Cons.prems(5) q by simp
  have p6': "leaf (sts ?t1) a' b' c' = None"
    if "(k1', f', Record x') \<in> set fs" and "kf x' = (a', b', c')" for k1' f' x' a' b' c'
  proof -
    have old: "leaf (sts t) a' b' c' = None"
      using Cons.prems(6) that by auto
    have "(a', b', c') \<noteq> (k1, b, c3)"
    proof
      assume e: "(a', b', c') = (k1, b, c3)"
      from that(1) p4 have "(k1', f', Record x') \<in> set (dfiles d)" by blast
      then obtain fl where 1: "(k1', fl) \<in> set (d_dirs d)" and 2: "(f', Record x') \<in> set fl"
        unfolding in_dfiles_set by blast
      from disk_ok_D(4) [OF ok 1 2] that(2) e have "k1' = k1" "f' = c3 @ ''.json''" by auto
      then have "(k1, f) \<in> set (map (\<lambda>(k1, f, c). (k1, f)) fs)"
        using that(1) fn by force
      then show False using notin by simp
    qed
    then show ?thesis using old by (simp add: l1)
  qed
  have p6: "\<forall>k1 f x a b c. (k1, f, Record x) \<in> set fs \<longrightarrow> kf x = (a, b, c) \<longrightarrow>
      leaf (sts ?t1) a b c = None"
    using p6' by (intro allI impI)
  from Cons.IH [OF p1 p2 p3 p4 p5 p6]
  obtain t' where r: "walk (disk_fsys d0) ?t1 (map (fent p) fs) = (t', None)" and r1: "m t' = d"
    and r2: "keyf t' = kf" and r3: "wf_index (sts t')"
    and r4: "\<forall>a b c y. leaf (sts t') a b c = Some y \<longleftrightarrow>
             leaf (sts ?t1) a b c = Some y \<or> (\<exists>k1 f. (k1, f, Record y) \<in> set fs \<and> kf y = (a, b, c))"
    by (elim exE conjE) (rule that)
  have "walk (disk_fsys d0) t (map (fent p) (q # fs)) = (t', None)"
  proof -
    obtain u e where ue: "Add (disk_fsys d0) t x = (u, e)" by force
    have "e = None" using a free ue by simp
    then show ?thesis using r w ue by (simp add: q)
  qed
  moreover have "leaf (sts t') a' b' c' = Some y \<longleftrightarrow>
             leaf (sts t) a' b' c' = Some y \<or>
             (\<exists>k1 f. (k1, f, Record y) \<in> set (q # fs) \<and> kf y = (a', b', c'))" for a' b' c' y
  proof -
    have "leaf (sts ?t1) a' b' c' = Some y \<longleftrightarrow>
          leaf (sts t) a' b' c' = Some y \<or> (y = x \<and> kf y = (a', b', c'))"
      using free k by (auto simp: l1)
    moreover have "(\<exists>k1' f'. (k1', f', Record y) \<in> set (q # fs) \<and> kf y = (a', b', c')) \<longleftrightarrow>
          (y = x \<and> kf y = (a', b', c')) \<or> (\<exists>k1' f'. (k1', f', Record y) \<in> set fs \<and> kf y = (a', b', c'))"
      using q c by auto
    ultimately show ?thesis using r4 by blast
  qed
  ultimately show ?case using r1 r2 r3 by blast
qed

lemma distinct_entries1: "distinct (map fst m1) \<Longrightarrow> distinct (entries1 k1 k2 m1)"
proof -
  assume "distinct (map fst m1)"
  then have "distinct m1" by (simp add: distinct_map)
  then show ?thesis unfolding entries1_def by (simp add: distinct_map inj_on_def split_def prod_eq_iff)
qed

lemma distinct_entries2:
  assumes "distinct (map fst m2)" and "\<And>k2 m1. (k2, m1) \<in> set m2 \<Longrightarrow> distinct (map fst m1)"
  shows "distinct (entries2 k1 m2)"
  using assms
proof (induction m2)
  case Nil
  then show ?case by (simp add: entries2_def)
next
  case (Cons p m2)
  obtain k2 m1 where p: "p = (k2, m1)" by (cases p)
  have 1: "distinct (entries1 k1 k2 m1)" using Cons.prems(2) [of k2 m1] p by (simp add: distinct_entries1)
  have 2: "distinct (entries2 k1 m2)" using Cons.prems by (intro Cons.IH) auto
  have "e \<notin> set (entries2 k1 m2)" if "e \<in> set (entries1 k1 k2 m1)" for e
  proof
    assume e2: "e \<in> set (entries2 k1 m2)"
    obtain a b c x where e: "e = (a, b, c, x)" by (cases e)
    from that e have "b = k2" by (simp add: in_entries1)
    moreover from e2 e have "(a, b, c, x) \<in> set (entries2 k1 m2)" by simp
    then obtain m1' where "(b, m1') \<in> set m2" unfolding in_entries2 by blast
    ultimately have "k2 \<in> fst ` set m2" by force
    then show False using Cons.prems(1) p by simp
  qed
  then show ?case using 1 2 unfolding p entries2_Cons by auto
qed

lemma distinct_entries:
  assumes "wf_index s"
  shows "distinct (entries s)"
  using assms
proof (induction s)
  case Nil
  then show ?case by (simp add: entries_def)
next
  case (Cons p s)
  obtain k1 m2 where p: "p = (k1, m2)" by (cases p)
  from Cons.prems p have nk: "k1 \<notin> fst ` set s" and d2: "distinct (map fst m2)"
    and d1: "\<forall>(k2, m1) \<in> set m2. distinct (map fst m1)" and w: "wf_index s"
    by (simp_all add: wf_index_Cons)
  have 1: "distinct (entries2 k1 m2)" using d2 d1 by (intro distinct_entries2) auto
  have 2: "distinct (entries s)" using w by (rule Cons.IH)
  have "e \<notin> set (entries s)" if "e \<in> set (entries2 k1 m2)" for e
  proof
    assume e2: "e \<in> set (entries s)"
    obtain a b c x where e: "e = (a, b, c, x)" by (cases e)
    from that e have "a = k1" by (simp add: in_entries2)
    moreover from e2 e have "(a, b, c, x) \<in> set (entries s)" by simp
    then obtain m2' where "(a, m2') \<in> set s" unfolding in_entries by blast
    ultimately have "k1 \<in> fst ` set s" by force
    then show False using nk by simp
  qed
  then show ?case using 1 2 unfolding p entries_Cons by auto
qed

lemma Filter_leaf_cong:
  assumes "wf_index (sts t1)" and "wf_index (sts t2)"
    and "\<And>a b c. leaf (sts t1) a b c = leaf (sts t2) a b c"
  shows "mset (Filter t1 a b) = mset (Filter t2 a b)"
proof -
  have "set (entries (sts t1)) = set (entries (sts t2))"
    by (auto simp: entries_iff [OF assms(1)] entries_iff [OF assms(2)] assms(3))
  then have "mset (entries (sts t1)) = mset (entries (sts t2))"
    using distinct_entries [OF assms(1)] distinct_entries [OF assms(2)]
    by (simp add: set_eq_iff_mset_eq_distinct)
  then show ?thesis
    unfolding Filter_entries [OF assms(1)] Filter_entries [OF assms(2)]
    by simp
qed

lemma disk_file_keys:
  assumes ok: "disk_ok kf d" and "(k1, f, Record y) \<in> set (dfiles d)" and "kf y = (a, b, c)"
  shows "k1 = a \<and> f = c @ ''.json''"
proof -
  from assms(2) obtain fl where 1: "(k1, fl) \<in> set (d_dirs d)" and 2: "(f, Record y) \<in> set fl"
    unfolding in_dfiles_set by blast
  from disk_ok_D(4) [OF ok 1 2] assms(3) show ?thesis by auto
qed

lemma reload:
  assumes ok: "disk_ok kf d" and root: "d_root d = dir"
    and nj: "\<not> HasSuffix (last (Split dir CHR ''/'')) ''.json''"
  shows "\<exists>t2. New (disk_fsys d) dir kf = (t2, None) \<and> m t2 = d \<and> keyf t2 = kf \<and>
           wf_index (sts t2) \<and>
           (\<forall>a b c y. leaf (sts t2) a b c = Some y \<longleftrightarrow>
              map_of (rd (d_dirs d) a) (c @ ''.json'') = Some (Record y) \<and> kf y = (a, b, c))"
proof -
  let ?t = "\<lparr>m = d, sts = [], keyf = kf\<rparr>"
  have d: "d\<lparr>d_root := dir\<rparr> = d" using root by simp
  have n: "New (disk_fsys d) dir kf = walk (disk_fsys d) ?t (disk_Walk dir d)"
    by (simp add: New_def disk_fsys_def d root)
  have w: "walk (disk_fsys d) ?t (disk_Walk dir d) = walk (disk_fsys d) ?t (map (fent dir) (dfiles d))"
    using walk_filter [of "disk_fsys d" ?t "disk_Walk dir d"] filter_visited_Walk [OF ok nj] by simp
  have "\<exists>t'. walk (disk_fsys d) ?t (map (fent dir) (dfiles d)) = (t', None) \<and> m t' = d \<and> keyf t' = kf \<and>
          wf_index (sts t') \<and>
          (\<forall>a b c y. leaf (sts t') a b c = Some y \<longleftrightarrow>
             leaf (sts ?t) a b c = Some y \<or> (\<exists>k1 f. (k1, f, Record y) \<in> set (dfiles d) \<and> kf y = (a, b, c)))"
    by (rule walk_files [OF ok])
       (simp_all add: wf_index_def leaf_def rd_def distinct_dfiles [OF ok])
  then obtain t' where 1: "walk (disk_fsys d) ?t (map (fent dir) (dfiles d)) = (t', None)"
    and 2: "m t' = d" and 3: "keyf t' = kf" and 4: "wf_index (sts t')"
    and 5: "\<forall>a b c y. leaf (sts t') a b c = Some y \<longleftrightarrow>
             leaf (sts ?t) a b c = Some y \<or> (\<exists>k1 f. (k1, f, Record y) \<in> set (dfiles d) \<and> kf y = (a, b, c))"
    by (elim exE conjE) (rule that)
  have 6: "leaf (sts t') a b c = Some y \<longleftrightarrow>
              map_of (rd (d_dirs d) a) (c @ ''.json'') = Some (Record y) \<and> kf y = (a, b, c)" for a b c y
  proof -
    have "leaf (sts t') a b c = Some y \<longleftrightarrow>
        (\<exists>k1 f. (k1, f, Record y) \<in> set (dfiles d) \<and> kf y = (a, b, c))"
      using 5 by (simp add: leaf_def rd_def)
    also have "\<dots> \<longleftrightarrow> (a, c @ ''.json'', Record y) \<in> set (dfiles d) \<and> kf y = (a, b, c)"
      using disk_file_keys [OF ok] by blast
    finally show ?thesis by (simp add: in_dfiles [OF ok])
  qed
  show ?thesis using n w 1 2 3 4 6 by (intro exI [of _ t']) simp
qed

lemma file_lookup_Set:
  "map_of (rd (AList.update k1 (AList.update f v (rd ds k1)) ds) a) g =
     (if a = k1 \<and> g = f then Some v else map_of (rd ds a) g)"
  by (simp add: rd_update map_of_update)

lemma set_update_cases:
  "(k, v) \<in> set (AList.update k1 v1 xs) \<Longrightarrow> (k, v) = (k1, v1) \<or> (k, v) \<in> set xs"
  using set_update_subset [of k1 v1 xs] by blast

lemma rd_in_set: "(f, c) \<in> set (rd ds k1) \<Longrightarrow> (k1, rd ds k1) \<in> set ds"
proof -
  assume "(f, c) \<in> set (rd ds k1)"
  then have "rd ds k1 \<noteq> []" by auto
  then have "map_of ds k1 = Some (rd ds k1)" by (rule rd_nonempty)
  then show ?thesis by (rule map_of_SomeD)
qed

lemma disk_ok_I:
  assumes "d_faulty d = []" and "distinct (map fst (d_dirs d))"
    and "\<And>k1 fl. (k1, fl) \<in> set (d_dirs d) \<Longrightarrow> plain_dir k1 \<and> distinct (map fst fl)"
    and "\<And>k1 fl f c. (k1, fl) \<in> set (d_dirs d) \<Longrightarrow> (f, c) \<in> set fl \<Longrightarrow>
           \<exists>x b c3. c = Record x \<and> kf x = (k1, b, c3) \<and> f = c3 @ ''.json'' \<and> CHR ''/'' \<notin> set c3"
  shows "disk_ok kf d"
proof -
  have "(case c of Garbage \<Rightarrow> False
             | Record x \<Rightarrow> (case kf x of (a, b, c3) \<Rightarrow>
                 a = k1 \<and> c3 @ ''.json'' = f \<and> CHR ''/'' \<notin> set c3))"
    if "(k1, fl) \<in> set (d_dirs d)" and "(f, c) \<in> set fl" for k1 fl f c
    using assms(4) [OF that] by auto
  then show ?thesis using assms(1,2,3) unfolding disk_ok_def by fast
qed

lemma disk_ok_Set:
  assumes ok: "disk_ok kf d" and k: "kf x = (k1, b, c3)" and pd: "plain_dir k1"
    and ns: "CHR ''/'' \<notin> set c3"
  shows "disk_ok kf (d\<lparr>d_dirs := AList.update k1
                          (AList.update (c3 @ ''.json'') (Record x) (rd (d_dirs d) k1)) (d_dirs d)\<rparr>)"
proof (rule disk_ok_I)
  let ?fl = "AList.update (c3 @ ''.json'') (Record x) (rd (d_dirs d) k1)"
  let ?d = "d\<lparr>d_dirs := AList.update k1 ?fl (d_dirs d)\<rparr>"
  show "d_faulty ?d = []" using disk_ok_D(1) [OF ok] by simp
  show "distinct (map fst (d_dirs ?d))" using disk_ok_D(2) [OF ok] by (simp add: distinct_update)
  have dfl: "distinct (map fst (rd (d_dirs d) k1))"
  proof (cases "map_of (d_dirs d) k1")
    case None
    then show ?thesis by (simp add: rd_def)
  next
    case (Some fl)
    then have "(k1, fl) \<in> set (d_dirs d)" by (rule map_of_SomeD)
    then show ?thesis using disk_ok_D(3) [OF ok] Some by (simp add: rd_def)
  qed
  show "plain_dir k \<and> distinct (map fst fl)" if "(k, fl) \<in> set (d_dirs ?d)" for k fl
  proof -
    from that have "(k, fl) \<in> set (AList.update k1 ?fl (d_dirs d))" by simp
    then have "(k, fl) = (k1, ?fl) \<or> (k, fl) \<in> set (d_dirs d)"
      by (rule set_update_cases)
    then show ?thesis using pd dfl disk_ok_D(3) [OF ok] by (elim disjE) (simp_all add: distinct_update)
  qed
  show "\<exists>x b c3. c = Record x \<and> kf x = (k, b, c3) \<and> f = c3 @ ''.json'' \<and> CHR ''/'' \<notin> set c3"
    if "(k, fl) \<in> set (d_dirs ?d)" and "(f, c) \<in> set fl" for k fl f c
  proof -
    from that(1) have "(k, fl) \<in> set (AList.update k1 ?fl (d_dirs d))" by simp
    then have "(k, fl) = (k1, ?fl) \<or> (k, fl) \<in> set (d_dirs d)"
      by (rule set_update_cases)
    then show ?thesis
    proof
      assume "(k, fl) \<in> set (d_dirs d)"
      then show ?thesis using disk_ok_D(4) [OF ok _ that(2)] by simp
    next
      assume e: "(k, fl) = (k1, ?fl)"
      then have "(f, c) \<in> set ?fl" using that(2) by simp
      then have "(f, c) = (c3 @ ''.json'', Record x) \<or> (f, c) \<in> set (rd (d_dirs d) k1)"
        by (rule set_update_cases)
      then show ?thesis
      proof
        assume "(f, c) = (c3 @ ''.json'', Record x)"
        then show ?thesis using k ns e by simp
      next
        assume i: "(f, c) \<in> set (rd (d_dirs d) k1)"
        have "(k1, rd (d_dirs d) k1) \<in> set (d_dirs d)" using i by (rule rd_in_set)
        from disk_ok_D(4) [OF ok this i] show ?thesis using e by simp
      qed
    qed
  qed
qed

lemma Add_in_sync:
  assumes s: "in_sync kf t" and k: "kf x = (k1, b, c3)" and pd: "plain_dir k1"
    and ns: "CHR ''/'' \<notin> set c3"
    and free: "map_of (rd (d_dirs (m t)) k1) (c3 @ ''.json'') = None"
  shows "snd (Add (disk_fsys d0) t x) = None"
    and "in_sync kf (fst (Add (disk_fsys d0) t x))"
    and "d_root (m (fst (Add (disk_fsys d0) t x))) = d_root (m t)"
    and "map_of (rd (d_dirs (m (fst (Add (disk_fsys d0) t x)))) a) g =
           (if a = k1 \<and> g = c3 @ ''.json'' then Some (Record x) else map_of (rd (d_dirs (m t)) a) g)"
proof -
  from s have ok: "disk_ok kf (m t)" and kt: "keyf t = kf" and wf: "wf_index (sts t)"
    and sy: "\<And>a b c y. leaf (sts t) a b c = Some y \<longleftrightarrow>
         map_of (rd (d_dirs (m t)) a) (c @ ''.json'') = Some (Record y) \<and> kf y = (a, b, c)"
    unfolding in_sync_def by blast+
  let ?t' = "fst (Add (disk_fsys d0) t x)"
  let ?d' = "(m t)\<lparr>d_dirs := AList.update k1
                (AList.update (c3 @ ''.json'') (Record x) (rd (d_dirs (m t)) k1)) (d_dirs (m t))\<rparr>"
  have kk: "keyf t x = (k1, b, c3)" using k kt by simp
  have lf: "leaf (sts t) k1 b c3 = None"
  proof (cases "leaf (sts t) k1 b c3")
    case (Some y)
    then show ?thesis using sy [of k1 b c3 y] free by simp
  qed simp
  have set: "disk_Set x [k1, c3 @ ''.json''] (m t) = (None, ?d')"
    using disk_ok_D(1) [OF ok] by (simp add: disk_Set_def)
  have mt: "m ?t' = ?d'" and er: "snd (Add (disk_fsys d0) t x) = None"
    unfolding Add_fresh [OF kk lf] using set by (simp_all add: disk_fsys_def)
  show "snd (Add (disk_fsys d0) t x) = None" by (rule er)
  show "d_root (m ?t') = d_root (m t)" unfolding mt by simp
  show lk: "map_of (rd (d_dirs (m ?t')) a) g =
           (if a = k1 \<and> g = c3 @ ''.json'' then Some (Record x) else map_of (rd (d_dirs (m t)) a) g)"
    for a g
    unfolding mt by (simp add: file_lookup_Set)
  have l': "leaf (sts ?t') a' b' c' = (if (a', b', c') = (k1, b, c3) then Some x else leaf (sts t) a' b' c')"
    for a' b' c'
    using lf by (simp add: leaf_Add [OF kk])
  have "disk_ok kf (m ?t')" unfolding mt using ok k pd ns by (rule disk_ok_Set)
  moreover have "keyf ?t' = kf" using kt by (simp add: keyf_Add)
  moreover have "wf_index (sts ?t')" using wf by (rule wf_index_Add)
  moreover have "leaf (sts ?t') a' b' c' = Some y \<longleftrightarrow>
         map_of (rd (d_dirs (m ?t')) a') (c' @ ''.json'') = Some (Record y) \<and> kf y = (a', b', c')"
    for a' b' c' y
  proof (cases "a' = k1 \<and> c' = c3")
    case True
    show ?thesis
    proof (cases "b' = b")
      case True
      with \<open>a' = k1 \<and> c' = c3\<close> show ?thesis using k by (auto simp: l' lk)
    next
      case False
      have "leaf (sts t) a' b' c' = None"
      proof (cases "leaf (sts t) a' b' c'")
        case (Some z)
        then show ?thesis using sy [of a' b' c' z] free True by simp
      qed simp
      with False True show ?thesis using k by (auto simp: l' lk)
    qed
  next
    case False
    then show ?thesis using sy [of a' b' c' y] by (auto simp: l' lk)
  qed
  ultimately show "in_sync kf ?t'" unfolding in_sync_def by blast
qed

lemma fst_run_Add: "fst (run fsd t (OpAdd x # ps)) = fst (run fsd (fst (Add fsd t x)) ps)"
  unfolding fst_run_Cons by (simp add: step_def)

lemma snd_run_Add:
  "snd (run fsd t (OpAdd x # ps)) = snd (Add fsd t x) # snd (run fsd (fst (Add fsd t x)) ps)"
  by (simp add: step_def split: prod.splits)

lemma run_Adds:
  assumes "in_sync kf t" and "distinct (map (disk_key kf) toks)"
    and "\<forall>x \<in> set toks. storable kf x \<and>
           map_of (rd (d_dirs (m t)) (fst (disk_key kf x))) (snd (disk_key kf x) @ ''.json'') = None"
  shows "snd (run (disk_fsys d0) t (map OpAdd toks)) = replicate (length toks) None \<and>
         in_sync kf (fst (run (disk_fsys d0) t (map OpAdd toks))) \<and>
         d_root (m (fst (run (disk_fsys d0) t (map OpAdd toks)))) = d_root (m t)"
  using assms
proof (induction toks arbitrary: t)
  case Nil
  then show ?case by simp
next
  case (Cons x toks)
  obtain k1 b c3 where k: "kf x = (k1, b, c3)" by (cases "kf x")
  have dk: "disk_key kf x = (k1, c3)" using k by (simp add: disk_key_def)
  have pd: "plain_dir k1" and ns: "CHR ''/'' \<notin> set c3"
    using Cons.prems(3) k by (simp_all add: storable_def)
  have free: "map_of (rd (d_dirs (m t)) k1) (c3 @ ''.json'') = None"
    using Cons.prems(3) dk by simp
  note A = Add_in_sync [OF Cons.prems(1) k pd ns free, of d0]
  let ?t1 = "fst (Add (disk_fsys d0) t x)"
  have d: "distinct (map (disk_key kf) toks)" using Cons.prems(2) by simp
  have r: "\<forall>y \<in> set toks. storable kf y \<and>
           map_of (rd (d_dirs (m ?t1)) (fst (disk_key kf y))) (snd (disk_key kf y) @ ''.json'') = None"
  proof
    fix y assume y: "y \<in> set toks"
    then have "disk_key kf y \<noteq> (k1, c3)" using Cons.prems(2) dk by force
    then have "\<not> (fst (disk_key kf y) = k1 \<and> snd (disk_key kf y) @ ''.json'' = c3 @ ''.json'')"
      by (cases "disk_key kf y") simp
    then show "storable kf y \<and>
           map_of (rd (d_dirs (m ?t1)) (fst (disk_key kf y))) (snd (disk_key kf y) @ ''.json'') = None"
      using Cons.prems(3) y by (simp add: A(4))
  qed
  have 1: "fst (run (disk_fsys d0) t (map OpAdd (x # toks))) =
           fst (run (disk_fsys d0) ?t1 (map OpAdd toks))"
    by (simp only: list.map fst_run_Add)
  have 2: "snd (run (disk_fsys d0) t (map OpAdd (x # toks))) =
           None # snd (run (disk_fsys d0) ?t1 (map OpAdd toks))"
    by (simp only: list.map snd_run_Add A(1))
  from Cons.IH [OF A(2) d r] show ?case unfolding 1 2 by (simp add: A(3))
qed

lemma option_eqI: "(\<And>y. p = Some y \<longleftrightarrow> q = Some y) \<Longrightarrow> p = q"
  by (cases p; cases q) auto

lemma roundtrip:
  assumes dist: "distinct (map (disk_key kf) toks)" and st: "\<forall>x \<in> set toks. storable kf x"
    and nj: "\<not> HasSuffix (last (Split dir CHR ''/'')) ''.json''"
  shows "snd (New (disk_fsys \<lparr>d_root = dir, d_dirs = [], d_faulty = []\<rparr>) dir kf) = None \<and>
     snd (run (disk_fsys \<lparr>d_root = dir, d_dirs = [], d_faulty = []\<rparr>)
            (fst (New (disk_fsys \<lparr>d_root = dir, d_dirs = [], d_faulty = []\<rparr>) dir kf))
            (map OpAdd toks)) = replicate (length toks) None \<and>
     snd (New (disk_fsys (m (fst (run (disk_fsys \<lparr>d_root = dir, d_dirs = [], d_faulty = []\<rparr>)
            (fst (New (disk_fsys \<lparr>d_root = dir, d_dirs = [], d_faulty = []\<rparr>) dir kf))
            (map OpAdd toks))))) dir kf) = None \<and>
     (\<forall>a b. mset (Filter (fst (New (disk_fsys (m (fst (run (disk_fsys \<lparr>d_root = dir, d_dirs = [], d_faulty = []\<rparr>)
            (fst (New (disk_fsys \<lparr>d_root = dir, d_dirs = [], d_faulty = []\<rparr>) dir kf))
            (map OpAdd toks))))) dir kf)) a b) =
            mset (Filter (fst (run (disk_fsys \<lparr>d_root = dir, d_dirs = [], d_faulty = []\<rparr>)
            (fst (New (disk_fsys \<lparr>d_root = dir, d_dirs = [], d_faulty = []\<rparr>) dir kf))
            (map OpAdd toks))) a b))"
proof -
  define d0 :: "'a disk" where "d0 = \<lparr>d_root = dir, d_dirs = [], d_faulty = []\<rparr>"
  have ok0: "disk_ok kf d0" by (simp add: d0_def disk_ok_def)
  have r0: "d_root d0 = dir" by (simp add: d0_def)
  from reload [OF ok0 r0 nj] obtain t0 where n0: "New (disk_fsys d0) dir kf = (t0, None)"
    and m0: "m t0 = d0" and k0: "keyf t0 = kf" and w0: "wf_index (sts t0)"
    and l0: "\<forall>a b c y. leaf (sts t0) a b c = Some y \<longleftrightarrow>
              map_of (rd (d_dirs d0) a) (c @ ''.json'') = Some (Record y) \<and> kf y = (a, b, c)"
    by (elim exE conjE) (rule that)
  have s0: "in_sync kf t0" unfolding in_sync_def using ok0 m0 k0 w0 l0 by simp
  have pre: "\<forall>x \<in> set toks. storable kf x \<and>
           map_of (rd (d_dirs (m t0)) (fst (disk_key kf x))) (snd (disk_key kf x) @ ''.json'') = None"
    using st by (simp add: m0 d0_def rd_def)
  define t1 where "t1 = fst (run (disk_fsys d0) t0 (map OpAdd toks))"
  from run_Adds [OF s0 dist pre, of d0]
  have e1: "snd (run (disk_fsys d0) t0 (map OpAdd toks)) = replicate (length toks) None"
    and s1: "in_sync kf t1" and r1: "d_root (m t1) = dir"
    by (simp_all add: t1_def m0 r0)
  from s1 have ok1: "disk_ok kf (m t1)" and w1: "wf_index (sts t1)"
    and l1: "\<And>a b c y. leaf (sts t1) a b c = Some y \<longleftrightarrow>
         map_of (rd (d_dirs (m t1)) a) (c @ ''.json'') = Some (Record y) \<and> kf y = (a, b, c)"
    unfolding in_sync_def by blast+
  from reload [OF ok1 r1 nj] obtain t2 where n2: "New (disk_fsys (m t1)) dir kf = (t2, None)"
    and w2: "wf_index (sts t2)"
    and l2: "\<forall>a b c y. leaf (sts t2) a b c = Some y \<longleftrightarrow>
              map_of (rd (d_dirs (m t1)) a) (c @ ''.json'') = Some (Record y) \<and> kf y = (a, b, c)"
    by (elim exE conjE) (rule that)
  have eq: "leaf (sts t2) a b c = leaf (sts t1) a b c" for a b c
    by (rule option_eqI) (simp add: l1 l2)
  have "mset (Filter t2 a b) = mset (Filter t1 a b)" for a b
    using w2 w1 eq by (rule Filter_leaf_cong)
  then show ?thesis
    using n0 e1 n2 unfolding d0_def [symmetric] t1_def by simp
qed

lemma New_empty: "New (disk_fsys xdisk) ''/st'' xkeyf = (xstore xdisk, None)"
  by (simp add: New_def disk_fsys_def xdisk_def xstore_def disk_Walk_def walkFn_def HasSuffix_def)

lemma run2:
  "run (disk_fsys xdisk) (xstore xdisk) [OpAdd (''a'', ''x'', ''c''), OpAdd (''a'', ''y'', ''c'')] =
     (\<lparr>m = \<lparr>d_root = ''/st'', d_dirs = [(''a'', [(''c.json'', Record (''a'', ''y'', ''c''))])],
              d_faulty = []\<rparr>,
        sts = [(''a'', [(''x'', [(''c'', (''a'', ''x'', ''c''))]), (''y'', [(''c'', (''a'', ''y'', ''c''))])])],
        keyf = xkeyf\<rparr>, [None, None])"
  by (simp add: step_def Add_def xstore_def xkeyf_def rd_def Let_def disk_fsys_def disk_Set_def xdisk_def)

lemma New2:
  "New (disk_fsys (m xstore2)) ''/st'' xkeyf =
     (\<lparr>m = \<lparr>d_root = ''/st'', d_dirs = [(''a'', [(''c.json'', Record (''a'', ''y'', ''c''))])],
              d_faulty = []\<rparr>,
        sts = [(''a'', [(''y'', [(''c'', (''a'', ''y'', ''c''))])])],
        keyf = xkeyf\<rparr>, None)"
  unfolding xstore2_def run2
  by (simp add: New_def disk_fsys_def disk_Walk_def walkFn_def HasSuffix_def join_def Let_def
      disk_Get_def Add_def xkeyf_def rd_def disk_Set_def)

text \<open>\<open>Add\<close> reports a duplicate only on the way that changes nothing.\<close>

lemma Add_dup_unchanged:
  assumes "snd (Add fsd t st) = Some DuplicateSTError"
  shows "Add fsd t st = (t, Some DuplicateSTError)"
proof -
  obtain k1 k2 k3 where k: "keyf t st = (k1, k2, k3)" by (cases "keyf t st")
  show ?thesis
  proof (cases "leaf (sts t) k1 k2 k3")
    case None
    have "snd (Add fsd t st) \<noteq> Some DuplicateSTError"
      unfolding Add_fresh [OF k None]
      by (cases "fst (fs_Set fsd st [k1, k3 @ ''.json''] (m t))") simp_all
    then show ?thesis using assms by simp
  next
    case (Some old)
    show ?thesis by (rule Add_dup [OF k Some])
  qed
qed

text \<open>
  \<open>New\<close> at the first record that cannot be read or is a duplicate: the walk stops
  there, and \<open>New\<close> returns the error with the store as the entries before it left it.
\<close>

lemma New_stops:
  assumes n: "fs_New fsd dir = (fs0, None)"
    and w: "fs_Walk fsd (fs_Path fsd fs0) fs0 = es1 @ (path, name, None) # es2"
    and p: "walk fsd \<lparr>m = fs0, sts = [], keyf = kf\<rparr> es1 = (t1, None)"
    and j: "HasSuffix name ''.json''"
    and l: "\<not> length (Split path CHR ''/'') < 2"
  shows "(fs_Get fsd (drop (length (Split path CHR ''/'') - 2) (Split path CHR ''/'')) (m t1) = Inl e
            \<longrightarrow> New fsd dir kf = (t1, Some (FsError e))) \<and>
         (fs_Get fsd (drop (length (Split path CHR ''/'') - 2) (Split path CHR ''/'')) (m t1) = Inr st \<and>
          snd (Add fsd t1 st) = Some DuplicateSTError
            \<longrightarrow> New fsd dir kf = (t1, Some DuplicateSTError))"
proof -
  let ?t = "\<lparr>m = fs0, sts = [], keyf = kf\<rparr>"
  have N: "New fsd dir kf = walk fsd ?t (es1 @ (path, name, None) # es2)"
    using n w by (simp add: New_def)
  have W: "walk fsd ?t (es1 @ (path, name, None) # es2) =
           (case walkFn fsd t1 (path, name, None) of
              (t2, None) \<Rightarrow> walk fsd t2 es2 | (t2, Some err) \<Rightarrow> (t2, Some err))"
    by (simp add: walk_append p)
  have A: "New fsd dir kf = (t1, Some (FsError e))"
    if "fs_Get fsd (drop (length (Split path CHR ''/'') - 2) (Split path CHR ''/'')) (m t1) = Inl e"
  proof -
    have "walkFn fsd t1 (path, name, None) = (t1, Some (FsError e))"
      using j l that by (simp add: walkFn_def Let_def)
    then show ?thesis unfolding N W by simp
  qed
  have B: "New fsd dir kf = (t1, Some DuplicateSTError)"
    if "fs_Get fsd (drop (length (Split path CHR ''/'') - 2) (Split path CHR ''/'')) (m t1) = Inr st"
      and "snd (Add fsd t1 st) = Some DuplicateSTError"
  proof -
    have "walkFn fsd t1 (path, name, None) = Add fsd t1 st"
      using j l that(1) by (simp add: walkFn_def Let_def)
    then have "walkFn fsd t1 (path, name, None) = (t1, Some DuplicateSTError)"
      using Add_dup_unchanged [OF that(2)] by simp
    then show ?thesis unfolding N W by simp
  qed
  show ?thesis using A B by blast
qed

text \<open>The two example directories, walked.\<close>

lemma partial_walk:
  "fs_Walk (disk_fsys xpartial) (fs_Path (disk_fsys xpartial) xpartial) xpartial =
     [(''/st'', ''st'', None), (''/st/a'', ''a'', None), (''/st/a/b.json'', ''b.json'', None)] @
       (''/st/a/c.json'', ''c.json'', None) # []"
  by (simp add: disk_fsys_def disk_Walk_def xpartial_def join_def)

lemma partial_prefix:
  "walk (disk_fsys xpartial) \<lparr>m = xpartial, sts = [], keyf = xkeyf\<rparr>
      [(''/st'', ''st'', None), (''/st/a'', ''a'', None), (''/st/a/b.json'', ''b.json'', None)]
     = (xloaded xpartial, None)"
  by (simp add: walkFn_def HasSuffix_def Let_def disk_fsys_def disk_Get_def xpartial_def rd_def
      Add_def xkeyf_def disk_Set_def xloaded_def)

lemma partial_get:
  "fs_Get (disk_fsys xpartial)
     (drop (length (Split ''/st/a/c.json'' CHR ''/'') - 2) (Split ''/st/a/c.json'' CHR ''/''))
     (m (xloaded xpartial)) = Inl Undecodable"
  by (simp add: disk_fsys_def disk_Get_def xpartial_def xloaded_def rd_def)

lemma double_walk:
  "fs_Walk (disk_fsys xdouble) (fs_Path (disk_fsys xdouble) xdouble) xdouble =
     [(''/st'', ''st'', None), (''/st/a'', ''a'', None), (''/st/a/b.json'', ''b.json'', None)] @
       (''/st/a/c.json'', ''c.json'', None) # []"
  by (simp add: disk_fsys_def disk_Walk_def xdouble_def join_def)

lemma double_prefix:
  "walk (disk_fsys xdouble) \<lparr>m = xdouble, sts = [], keyf = xkeyf\<rparr>
      [(''/st'', ''st'', None), (''/st/a'', ''a'', None), (''/st/a/b.json'', ''b.json'', None)]
     = (xloaded xdouble, None)"
  by (simp add: walkFn_def HasSuffix_def Let_def disk_fsys_def disk_Get_def xdouble_def rd_def
      Add_def xkeyf_def disk_Set_def xloaded_def)

lemma double_get:
  "fs_Get (disk_fsys xdouble)
     (drop (length (Split ''/st/a/c.json'' CHR ''/'') - 2) (Split ''/st/a/c.json'' CHR ''/''))
     (m (xloaded xdouble)) = Inr (''a'', ''x'', ''b'')"
  by (simp add: disk_fsys_def disk_Get_def xdouble_def xloaded_def rd_def)

lemma double_dup:
  "snd (Add (disk_fsys xdouble) (xloaded xdouble) (''a'', ''x'', ''b'')) = Some DuplicateSTError"
  by (simp add: Add_def xloaded_def xkeyf_def rd_def Let_def)

lemma partial_New:
  "New (disk_fsys xpartial) ''/st'' xkeyf = (xloaded xpartial, Some (FsError Undecodable))"
proof -
  have n: "fs_New (disk_fsys xpartial) ''/st'' = (xpartial, None)"
    by (simp add: disk_fsys_def xpartial_def)
  have j: "HasSuffix ''c.json'' ''.json''" by (simp add: HasSuffix_def)
  have l: "\<not> length (Split ''/st/a/c.json'' CHR ''/'') < 2" by simp
  from New_stops [OF n partial_walk partial_prefix j l, of Undecodable] partial_get
  show ?thesis by blast
qed

lemma empty_dir_st: "empty_dir ''/st'' = xdisk"
  by (simp add: empty_dir_def xdisk_def)

text \<open>
  C9, as stated, fails in both halves. Two tokens with distinct triples that differ in
  \<open>k2\<close> only are both added with success, the second write replaces the file of the
  first, and the store rebuilt from the directory holds one of them. And on a directory
  whose second record does not deserialize, \<open>New\<close> returns the error together with a
  store that holds the first record, and \<open>Filter\<close> on that store lists it.
\<close>

theorem bootstrap_roundtrip_counterexample:
  "distinct [xkeyf (''a'', ''x'', ''c''), xkeyf (''a'', ''y'', ''c'')] \<and>
   snd (populate xkeyf ''/st'' [(''a'', ''x'', ''c''), (''a'', ''y'', ''c'')]) = [None, None] \<and>
   snd (reopen xkeyf ''/st'' [(''a'', ''x'', ''c''), (''a'', ''y'', ''c'')]) = None \<and>
   mset (Filter (fst (reopen xkeyf ''/st'' [(''a'', ''x'', ''c''), (''a'', ''y'', ''c'')])) [] []) \<noteq>
   mset (Filter (fst (populate xkeyf ''/st'' [(''a'', ''x'', ''c''), (''a'', ''y'', ''c'')])) [] []) \<and>
   disk_Get [''a'', ''c.json''] xpartial = Inl Undecodable \<and>
   snd (New (disk_fsys xpartial) ''/st'' xkeyf) = Some (FsError Undecodable) \<and>
   Filter (fst (New (disk_fsys xpartial) ''/st'' xkeyf)) [] [] = [(''a'', ''x'', ''b'')]"
proof -
  have p: "populate xkeyf ''/st'' [(''a'', ''x'', ''c''), (''a'', ''y'', ''c'')] =
      run (disk_fsys xdisk) (xstore xdisk) [OpAdd (''a'', ''x'', ''c''), OpAdd (''a'', ''y'', ''c'')]"
    unfolding populate_def empty_dir_st New_empty fst_conv list.map ..
  have f: "fst (populate xkeyf ''/st'' [(''a'', ''x'', ''c''), (''a'', ''y'', ''c'')]) = xstore2"
    unfolding p xstore2_def ..
  have r: "reopen xkeyf ''/st'' [(''a'', ''x'', ''c''), (''a'', ''y'', ''c'')] =
      New (disk_fsys (m xstore2)) ''/st'' xkeyf"
    unfolding reopen_def f ..
  have "Filter xstore2 [] [] = [(''a'', ''x'', ''c''), (''a'', ''y'', ''c'')]"
    unfolding xstore2_def run2 by (simp add: Filter_def vals_def)
  moreover have "Filter (fst (New (disk_fsys (m xstore2)) ''/st'' xkeyf)) [] [] = [(''a'', ''y'', ''c'')]"
    unfolding New2 by (simp add: Filter_def vals_def)
  moreover have "snd (populate xkeyf ''/st'' [(''a'', ''x'', ''c''), (''a'', ''y'', ''c'')]) = [None, None]"
    unfolding p run2 by simp
  moreover have "snd (New (disk_fsys (m xstore2)) ''/st'' xkeyf) = None"
    unfolding New2 by simp
  moreover have "disk_Get [''a'', ''c.json''] xpartial = Inl Undecodable"
    by (simp add: disk_Get_def xpartial_def rd_def)
  moreover have "snd (New (disk_fsys xpartial) ''/st'' xkeyf) = Some (FsError Undecodable)"
    unfolding partial_New by simp
  moreover have "Filter (fst (New (disk_fsys xpartial) ''/st'' xkeyf)) [] [] = [(''a'', ''x'', ''b'')]"
    unfolding partial_New by (simp add: Filter_def vals_def xloaded_def)
  ultimately show ?thesis unfolding r f by (simp add: xkeyf_def)
qed

text \<open>
  C9, amended. Let the tokens have pairwise distinct \<open>(k1, k3)\<close>, each \<open>k1\<close> the plain
  name of a subdirectory and each \<open>k3\<close> free of separators, and let the name of the
  store directory not end in \<open>.json\<close>. Then \<open>New\<close> on the empty directory succeeds,
  every \<open>Add\<close> succeeds, \<open>New\<close> on the directory they leave succeeds, and for all
  arguments \<open>Filter\<close> of the rebuilt store equals \<open>Filter\<close> of the first one up to
  the order. And for every file store: when the walk, after entries that went through
  without error, reaches a record (a name ending in \<open>.json\<close>, at a path of two segments
  or more) whose \<open>Get\<close> fails, \<open>New\<close> returns that error, and when \<open>Add\<close> rejects
  its token as a duplicate, \<open>New\<close> returns \<open>DuplicateSTError\<close>; in both cases no later
  entry is visited and what \<open>New\<close> returns with the error is the store as the earlier
  entries left it.
\<close>

theorem bootstrap_roundtrip:
  assumes "distinct (map (disk_key kf) toks)" and "\<forall>x \<in> set toks. storable kf x"
    and "\<not> HasSuffix (last (Split dir CHR ''/'')) ''.json''"
  shows "(snd (New (disk_fsys (empty_dir dir)) dir kf) = None \<and>
          snd (populate kf dir toks) = replicate (length toks) None \<and>
          snd (reopen kf dir toks) = None \<and>
          (\<forall>a b. mset (Filter (fst (reopen kf dir toks)) a b) =
                 mset (Filter (fst (populate kf dir toks)) a b))) \<and>
         (fs_New fsd dir' = (fs0, None) \<and>
          fs_Walk fsd (fs_Path fsd fs0) fs0 = es1 @ (path, name, None) # es2 \<and>
          walk fsd \<lparr>m = fs0, sts = [], keyf = kf'\<rparr> es1 = (t1, None) \<and>
          HasSuffix name ''.json'' \<and> \<not> length (Split path CHR ''/'') < 2
          \<longrightarrow>
          (fs_Get fsd (drop (length (Split path CHR ''/'') - 2) (Split path CHR ''/'')) (m t1) = Inl e
             \<longrightarrow> New fsd dir' kf' = (t1, Some (FsError e))) \<and>
          (fs_Get fsd (drop (length (Split path CHR ''/'') - 2) (Split path CHR ''/'')) (m t1) = Inr st \<and>
           snd (Add fsd t1 st) = Some DuplicateSTError
             \<longrightarrow> New fsd dir' kf' = (t1, Some DuplicateSTError)))"
proof (rule conjI)
  show "snd (New (disk_fsys (empty_dir dir)) dir kf) = None \<and>
          snd (populate kf dir toks) = replicate (length toks) None \<and>
          snd (reopen kf dir toks) = None \<and>
          (\<forall>a b. mset (Filter (fst (reopen kf dir toks)) a b) =
                 mset (Filter (fst (populate kf dir toks)) a b))"
    unfolding reopen_def populate_def empty_dir_def by (rule roundtrip [OF assms])
next
  show "fs_New fsd dir' = (fs0, None) \<and>
          fs_Walk fsd (fs_Path fsd fs0) fs0 = es1 @ (path, name, None) # es2 \<and>
          walk fsd \<lparr>m = fs0, sts = [], keyf = kf'\<rparr> es1 = (t1, None) \<and>
          HasSuffix name ''.json'' \<and> \<not> length (Split path CHR ''/'') < 2
          \<longrightarrow>
          (fs_Get fsd (drop (length (Split path CHR ''/'') - 2) (Split path CHR ''/'')) (m t1) = Inl e
             \<longrightarrow> New fsd dir' kf' = (t1, Some (FsError e))) \<and>
          (fs_Get fsd (drop (length (Split path CHR ''/'') - 2) (Split path CHR ''/'')) (m t1) = Inr st \<and>
           snd (Add fsd t1 st) = Some DuplicateSTError
             \<longrightarrow> New fsd dir' kf' = (t1, Some DuplicateSTError))"
  proof (intro impI, elim conjE)
    assume "fs_New fsd dir' = (fs0, None)"
      and "fs_Walk fsd (fs_Path fsd fs0) fs0 = es1 @ (path, name, None) # es2"
      and "walk fsd \<lparr>m = fs0, sts = [], keyf = kf'\<rparr> es1 = (t1, None)"
      and "HasSuffix name ''.json''"
      and "\<not> length (Split path CHR ''/'') < 2"
    then show "(fs_Get fsd (drop (length (Split path CHR ''/'') - 2) (Split path CHR ''/'')) (m t1) = Inl e
             \<longrightarrow> New fsd dir' kf' = (t1, Some (FsError e))) \<and>
          (fs_Get fsd (drop (length (Split path CHR ''/'') - 2) (Split path CHR ''/'')) (m t1) = Inr st \<and>
           snd (Add fsd t1 st) = Some DuplicateSTError
             \<longrightarrow> New fsd dir' kf' = (t1, Some DuplicateSTError))"
      by (rule New_stops)
  qed
qed

theorem bootstrap_roundtrip_witness:
  "distinct (map (disk_key xkeyf) [(''a'', ''x'', ''c''), (''b'', ''y'', ''c''), (''a'', ''y'', ''d'')]) \<and>
   storable xkeyf (''a'', ''x'', ''c'') \<and> storable xkeyf (''b'', ''y'', ''c'') \<and>
   storable xkeyf (''a'', ''y'', ''d'') \<and>
   \<not> HasSuffix (last (Split ''/st'' CHR ''/'')) ''.json'' \<and>
   snd (populate xkeyf ''/st'' [(''a'', ''x'', ''c''), (''b'', ''y'', ''c''), (''a'', ''y'', ''d'')])
     = [None, None, None] \<and>
   snd (reopen xkeyf ''/st'' [(''a'', ''x'', ''c''), (''b'', ''y'', ''c''), (''a'', ''y'', ''d'')]) = None \<and>
   mset (Filter (fst (reopen xkeyf ''/st''
           [(''a'', ''x'', ''c''), (''b'', ''y'', ''c''), (''a'', ''y'', ''d'')])) [] ''y'') =
   mset (Filter (fst (populate xkeyf ''/st''
           [(''a'', ''x'', ''c''), (''b'', ''y'', ''c''), (''a'', ''y'', ''d'')])) [] ''y'') \<and>
   fs_New (disk_fsys xpartial) ''/st'' = (xpartial, None) \<and>
   HasSuffix ''c.json'' ''.json'' \<and> \<not> length (Split ''/st/a/c.json'' CHR ''/'') < 2 \<and>
   New (disk_fsys xpartial) ''/st'' xkeyf = (xloaded xpartial, Some (FsError Undecodable)) \<and>
   fs_New (disk_fsys xdouble) ''/st'' = (xdouble, None) \<and>
   snd (Add (disk_fsys xdouble) (xloaded xdouble) (''a'', ''x'', ''b'')) = Some DuplicateSTError \<and>
   New (disk_fsys xdouble) ''/st'' xkeyf = (xloaded xdouble, Some DuplicateSTError)"
proof -
  have 1: "distinct (map (disk_key xkeyf) [(''a'', ''x'', ''c''), (''b'', ''y'', ''c''), (''a'', ''y'', ''d'')])"
    by (simp add: disk_key_def xkeyf_def)
  have 2: "\<forall>x \<in> set [(''a'', ''x'', ''c''), (''b'', ''y'', ''c''), (''a'', ''y'', ''d'')]. storable xkeyf x"
    by (simp add: storable_def xkeyf_def plain_dir_def HasSuffix_def)
  have 3: "\<not> HasSuffix (last (Split ''/st'' CHR ''/'')) ''.json''"
    by (simp add: HasSuffix_def)
  have 4: "fs_New (disk_fsys xpartial) ''/st'' = (xpartial, None)"
    by (simp add: disk_fsys_def xpartial_def)
  have 5: "HasSuffix ''c.json'' ''.json''" by (simp add: HasSuffix_def)
  have 6: "\<not> length (Split ''/st/a/c.json'' CHR ''/'') < 2" by simp
  have 7: "fs_New (disk_fsys xdouble) ''/st'' = (xdouble, None)"
    by (simp add: disk_fsys_def xdouble_def)
  note A = bootstrap_roundtrip [OF 1 2 3, where fsd = "disk_fsys xpartial" and dir' = "''/st''"
        and ?fs0.0 = xpartial
        and ?es1.0 = "[(''/st'', ''st'', None), (''/st/a'', ''a'', None), (''/st/a/b.json'', ''b.json'', None)]"
        and path = "''/st/a/c.json''" and name = "''c.json''" and ?es2.0 = "[]"
        and ?t1.0 = "xloaded xpartial" and e = Undecodable and kf' = xkeyf]
  note B = bootstrap_roundtrip [OF 1 2 3, where fsd = "disk_fsys xdouble" and dir' = "''/st''"
        and ?fs0.0 = xdouble
        and ?es1.0 = "[(''/st'', ''st'', None), (''/st/a'', ''a'', None), (''/st/a/b.json'', ''b.json'', None)]"
        and path = "''/st/a/c.json''" and name = "''c.json''" and ?es2.0 = "[]"
        and ?t1.0 = "xloaded xdouble" and st = "(''a'', ''x'', ''b'')" and kf' = xkeyf]
  have a: "New (disk_fsys xpartial) ''/st'' xkeyf = (xloaded xpartial, Some (FsError Undecodable))"
    using A 4 5 6 partial_walk partial_prefix partial_get by blast
  have b: "New (disk_fsys xdouble) ''/st'' xkeyf = (xloaded xdouble, Some DuplicateSTError)"
    using B 7 5 6 double_walk double_prefix double_get double_dup by blast
  have c: "snd (populate xkeyf ''/st'' [(''a'', ''x'', ''c''), (''b'', ''y'', ''c''), (''a'', ''y'', ''d'')])
     = [None, None, None] \<and>
   snd (reopen xkeyf ''/st'' [(''a'', ''x'', ''c''), (''b'', ''y'', ''c''), (''a'', ''y'', ''d'')]) = None \<and>
   mset (Filter (fst (reopen xkeyf ''/st''
           [(''a'', ''x'', ''c''), (''b'', ''y'', ''c''), (''a'', ''y'', ''d'')])) [] ''y'') =
   mset (Filter (fst (populate xkeyf ''/st''
           [(''a'', ''x'', ''c''), (''b'', ''y'', ''c''), (''a'', ''y'', ''d'')])) [] ''y'')"
    using A by simp
  show ?thesis using 1 2 3 4 5 6 7 a b c double_dup by simp
qed

end
